theory Spec2Isabelle
  imports Main
begin

section \<open>Source text and character classes\<close>

text \<open>
  The development verifies \<^verbatim>\<open>find_function_and_template\<close> of
  \<^verbatim>\<open>sync-email-templates.py\<close>, the routine that locates the content of a
  backtick-delimited template literal inside a JavaScript source text.

  A Python \<^verbatim>\<open>str\<close> is a sequence of code points; the model takes source texts
  whose code points are below 256, one \<^typ>\<open>char\<close> each, so that \<^const>\<open>length\<close>,
  indexing and slicing count what Python counts. The classes \<^verbatim>\<open>\s\<close> and
  \<^verbatim>\<open>\w\<close> of Python's \<^verbatim>\<open>re\<close> (Unicode matching, the default for
  \<^verbatim>\<open>str\<close> patterns) are written out for that range.
\<close>

definition is_space :: "char \<Rightarrow> bool" where
  "is_space c =
     (let n = (of_char c :: nat)
      in (9 \<le> n \<and> n \<le> 13) \<or> (28 \<le> n \<and> n \<le> 32) \<or> n = 133 \<or> n = 160)"

definition is_word :: "char \<Rightarrow> bool" where
  "is_word c =
     (let n = (of_char c :: nat)
      in (48 \<le> n \<and> n \<le> 57) \<or> (65 \<le> n \<and> n \<le> 90) \<or> n = 95 \<or> (97 \<le> n \<and> n \<le> 122)
         \<or> n = 170 \<or> n = 178 \<or> n = 179 \<or> n = 181 \<or> n = 185 \<or> n = 186
         \<or> (188 \<le> n \<and> n \<le> 190) \<or> (192 \<le> n \<and> n \<le> 214)
         \<or> (216 \<le> n \<and> n \<le> 246) \<or> (248 \<le> n \<and> n \<le> 255))"

section \<open>The regular expressions of the source, with backtracking semantics\<close>

text \<open>
  The three patterns of the source use literals, the classes \<^verbatim>\<open>\s\<close>,
  \<^verbatim>\<open>\w\<close> and \<^verbatim>\<open>[^)]\<close> under greedy \<^verbatim>\<open>*\<close> and \<^verbatim>\<open>+\<close>,
  concatenation, alternation and a greedy optional group. \<^verbatim>\<open>re.escape(name)\<close>
  yields a pattern that matches \<^verbatim>\<open>name\<close> literally, hence \<open>Lit name\<close>.
\<close>

datatype cclass = Space | Word | NotChar char

fun in_class :: "cclass \<Rightarrow> char \<Rightarrow> bool" where
  "in_class Space c = is_space c"
| "in_class Word c = is_word c"
| "in_class (NotChar x) c = (c \<noteq> x)"

datatype regex =
    Lit string
  | Star cclass
  | Plus cclass
  | Seq regex regex
  | Alt regex regex
  | Opt regex

text \<open>
  \<open>matches r s\<close> lists, in the order in which Python's backtracking matcher tries them,
  the remainders of \<open>s\<close> after each way of matching \<open>r\<close> at the start of \<open>s\<close>: a
  greedy repetition offers its longest run first, an alternation its left branch first,
  an optional group its presence first. The match Python reports is the head of the list.
\<close>

fun lit :: "string \<Rightarrow> string \<Rightarrow> string list" where
  "lit [] s = [s]"
| "lit (c # cs) [] = []"
| "lit (c # cs) (x # xs) = (if c = x then lit cs xs else [])"

fun star :: "cclass \<Rightarrow> string \<Rightarrow> string list" where
  "star k [] = [[]]"
| "star k (x # xs) = (if in_class k x then star k xs @ [x # xs] else [x # xs])"

fun matches :: "regex \<Rightarrow> string \<Rightarrow> string list" where
  "matches (Lit l) s = lit l s"
| "matches (Star k) s = star k s"
| "matches (Plus k) s =
     (case s of [] \<Rightarrow> [] | x # xs \<Rightarrow> if in_class k x then star k xs else [])"
| "matches (Seq a b) s = concat (map (matches b) (matches a s))"
| "matches (Alt a b) s = matches a s @ matches b s"
| "matches (Opt a) s = matches a s @ [s]"

definition match_end :: "regex \<Rightarrow> string \<Rightarrow> nat option" where
  "match_end r s =
     (case matches r s of [] \<Rightarrow> None | t # _ \<Rightarrow> Some (length s - length t))"

text \<open>
  \<^verbatim>\<open>re.search\<close>: the leftmost position at which the pattern matches, with the
  match's \<^verbatim>\<open>start()\<close> and \<^verbatim>\<open>end()\<close>.
\<close>

fun search_from :: "regex \<Rightarrow> string \<Rightarrow> nat \<Rightarrow> (nat \<times> nat) option" where
  "search_from r [] i =
     (case match_end r [] of None \<Rightarrow> None | Some n \<Rightarrow> Some (i, i + n))"
| "search_from r (c # cs) i =
     (case match_end r (c # cs) of
        None \<Rightarrow> search_from r cs (i + 1)
      | Some n \<Rightarrow> Some (i, i + n))"

definition re_search :: "regex \<Rightarrow> string \<Rightarrow> (nat \<times> nat) option" where
  "re_search r s = search_from r s 0"

fun cat :: "regex list \<Rightarrow> regex" where
  "cat [] = Lit []"
| "cat [r] = r"
| "cat (r # rs) = Seq r (cat rs)"

text \<open>\<^verbatim>\<open>rf'function\s+{re.escape(function_name)}\s*\([^)]*\)\s*\{{'\<close>\<close>

definition func_pattern :: "string \<Rightarrow> regex" where
  "func_pattern function_name =
     cat [Lit ''function'', Plus Space, Lit function_name, Star Space, Lit ''('',
          Star (NotChar (CHR '')'')), Lit '')'', Star Space, Lit ''{'']"

text \<open>\<^verbatim>\<open>r'\n(?:function\s+\w+|/\*\*)'\<close>\<close>

definition next_func_pattern :: regex where
  "next_func_pattern =
     cat [Lit [CHR 0x0A],
          Alt (cat [Lit ''function'', Plus Space, Plus Word]) (Lit ''/**'')]"

text \<open>
  \<^verbatim>\<open>r'return\s*`'\<close> when \<^verbatim>\<open>html_var == 'return'\<close>, and otherwise
  \<^verbatim>\<open>rf'(?:const|let|var)?\s*{re.escape(html_var)}\s*=\s*`'\<close>.
\<close>

definition assignment_pattern :: "string \<Rightarrow> regex" where
  "assignment_pattern html_var =
     (if html_var = ''return'' then cat [Lit ''return'', Star Space, Lit [CHR 0x60]]
      else cat [Opt (Alt (Lit ''const'') (Alt (Lit ''let'') (Lit ''var''))), Star Space,
                Lit html_var, Star Space, Lit ''='', Star Space, Lit [CHR 0x60]])"

section \<open>The scan for the closing backtick\<close>

text \<open>
  One iteration of the \<^verbatim>\<open>while\<close> loop of the source, over the loop's four
  variables, entered with \<open>pos < len(code)\<close> and \<open>depth > 0\<close>. The result says how
  the iteration ends: \<open>Break\<close> for the \<^verbatim>\<open>break\<close> statement (\<open>depth\<close> already
  decremented, \<open>pos\<close> not advanced), \<open>Proceed\<close> when control returns to the loop
  test, by \<^verbatim>\<open>continue\<close> after an escape or after the final \<^verbatim>\<open>pos += 1\<close>.
  \<open>CHR 0x5C\<close> is the backslash, \<open>CHR 0x60\<close> the backtick.
\<close>

datatype flow = Proceed | Break

definition loop_body ::
  "string \<Rightarrow> nat \<Rightarrow> int \<Rightarrow> bool \<Rightarrow> int \<Rightarrow> flow \<times> nat \<times> int \<times> bool \<times> int" where
  "loop_body code pos depth in_expression expr_depth =
     (if code ! pos = CHR 0x5C \<and> pos + 1 < length code then
        (Proceed, pos + 2, depth, in_expression, expr_depth)
      else if code ! pos = CHR 0x60 \<and> \<not> in_expression then
        (if depth - 1 = 0 then (Break, pos, depth - 1, in_expression, expr_depth)
         else (Proceed, pos + 1, depth - 1, in_expression, expr_depth))
      else if code ! pos = CHR ''$'' \<and> pos + 1 < length code \<and> code ! (pos + 1) = CHR ''{'' then
        (Proceed, pos + 1 + 1, depth, True, 1)
      else if in_expression then
        (if code ! pos = CHR ''{'' then
           (Proceed, pos + 1, depth, in_expression, expr_depth + 1)
         else if code ! pos = CHR ''}'' then
           (if expr_depth - 1 = 0 then (Proceed, pos + 1, depth, False, expr_depth - 1)
            else (Proceed, pos + 1, depth, in_expression, expr_depth - 1))
         else (Proceed, pos + 1, depth, in_expression, expr_depth))
      else (Proceed, pos + 1, depth, in_expression, expr_depth))"

text \<open>
  The loop: \<^verbatim>\<open>while pos < len(code) and depth > 0\<close>. It returns the four variables
  as they are when the loop is left.
\<close>

function scan :: "string \<Rightarrow> nat \<Rightarrow> int \<Rightarrow> bool \<Rightarrow> int \<Rightarrow> nat \<times> int \<times> bool \<times> int" where
  "scan code pos depth in_expression expr_depth =
     (if pos < length code \<and> depth > 0 then
        (case loop_body code pos depth in_expression expr_depth of
           (Break, final) \<Rightarrow> final
         | (Proceed, pos', depth', in_expression', expr_depth') \<Rightarrow>
             scan code pos' depth' in_expression' expr_depth')
      else (pos, depth, in_expression, expr_depth))"
  by pat_completeness auto
termination
  by (relation "measure (\<lambda>(code, pos, depth, in_expression, expr_depth). length code - pos)")
     (auto simp: loop_body_def split: if_splits)

declare scan.simps [simp del]

section \<open>find_function_and_template\<close>

text \<open>
  The source returns a pair \<^verbatim>\<open>(result, error)\<close>: \<^verbatim>\<open>((start, end), None)\<close> on
  success and \<^verbatim>\<open>(None, message)\<close> on each of its three failures. The model returns
  \<open>Inr (start, end)\<close> or \<open>Inl\<close> of the failure; \<open>error_message\<close> is the message the
  source builds for it.
\<close>

datatype error = FunctionNotFound | AssignmentNotFound | UnterminatedLiteral

fun error_message :: "error \<Rightarrow> string \<Rightarrow> string \<Rightarrow> string" where
  "error_message FunctionNotFound function_name html_var =
     ''Could not find function '' @ function_name"
| "error_message AssignmentNotFound function_name html_var =
     ''Could not find '' @ html_var @ '' assignment in '' @ function_name"
| "error_message UnterminatedLiteral function_name html_var =
     ''Could not find closing backtick for template in '' @ function_name"

text \<open>
  The Python slice \<^verbatim>\<open>s[i:j]\<close> for \<open>0 \<le> i\<close> and \<open>0 \<le> j\<close>;
  \<^verbatim>\<open>s[i:]\<close> is \<open>drop i s\<close>.
\<close>

definition slice :: "string \<Rightarrow> nat \<Rightarrow> nat \<Rightarrow> string" where
  "slice s i j = take (j - i) (drop i s)"

text \<open>
  The function is modelled in the three stages its comments name. First
  ``Find the function'' and ``Find the next function to limit our search scope'':
  \<open>func_window\<close> is the pair \<open>(func_start, func_end)\<close>, or \<open>None\<close> where the source
  returns its first failure.
\<close>

definition func_window :: "string \<Rightarrow> string \<Rightarrow> (nat \<times> nat) option" where
  "func_window code function_name =
     (case re_search (func_pattern function_name) code of
        None \<Rightarrow> None
      | Some func_match \<Rightarrow>
          (let func_start = snd func_match;
               func_end = (case re_search next_func_pattern (drop func_start code) of
                             Some next_func \<Rightarrow> func_start + fst next_func
                           | None \<Rightarrow> length code)
           in Some (func_start, func_end)))"

text \<open>
  ``Find the htmlBody assignment within the function'' and ``Calculate absolute
  position'': \<open>template_start\<close>, or the first or second failure.
\<close>

definition template_start :: "string \<Rightarrow> string \<Rightarrow> string \<Rightarrow> error + nat" where
  "template_start code function_name html_var =
     (case func_window code function_name of
        None \<Rightarrow> Inl FunctionNotFound
      | Some (func_start, func_end) \<Rightarrow>
          (let func_body = slice code func_start func_end
           in case re_search (assignment_pattern html_var) func_body of
                None \<Rightarrow> Inl AssignmentNotFound
              | Some assignment_match \<Rightarrow> Inr (func_start + snd assignment_match)))"

text \<open>
  ``Find the closing backtick'': the scan starts at \<open>template_start\<close> with
  \<open>depth = 1\<close>, \<open>in_expression = False\<close>, \<open>expr_depth = 0\<close>; a final \<open>depth\<close> other
  than 0 is the third failure.
\<close>

definition find_function_and_template :: "string \<Rightarrow> string \<Rightarrow> string \<Rightarrow> error + (nat \<times> nat)" where
  "find_function_and_template code function_name html_var =
     (case template_start code function_name html_var of
        Inl failure \<Rightarrow> Inl failure
      | Inr start \<Rightarrow>
          (case scan code start 1 False 0 of
             (pos, depth, in_expression, expr_depth) \<Rightarrow>
               if depth \<noteq> 0 then Inl UnterminatedLiteral else Inr (start, pos)))"

section \<open>Specification notions\<close>

text \<open>
  The language of a pattern, independent of the order in which a matcher explores it,
  and the occurrences of a pattern in a text: \<open>occurs_at r s i j\<close> says that
  \<open>s[i:j]\<close> is a word of \<open>r\<close>.
\<close>

fun lang :: "regex \<Rightarrow> string set" where
  "lang (Lit l) = {l}"
| "lang (Star k) = {m. list_all (in_class k) m}"
| "lang (Plus k) = {m. m \<noteq> [] \<and> list_all (in_class k) m}"
| "lang (Seq a b) = {m @ n | m n. m \<in> lang a \<and> n \<in> lang b}"
| "lang (Alt a b) = lang a \<union> lang b"
| "lang (Opt a) = insert [] (lang a)"

definition occurs_at :: "regex \<Rightarrow> string \<Rightarrow> nat \<Rightarrow> nat \<Rightarrow> bool" where
  "occurs_at r s i j = (i \<le> j \<and> j \<le> length s \<and> slice s i j \<in> lang r)"







text \<open>
  Well-formed literal content, as far as this scanner is meant to read it. An
  interpolation body is \<open>balanced\<close>: read from left to right, with a backslash taking
  the next character with it, no dollar sign is followed by an opening brace and the
  braces that remain pair up; quotes play no role, and any other character, a backtick
  included, may stand in it. A \<open>template_text\<close> is a sequence of plain characters,
  escape pairs (a backslash and any character), dollar signs that open no
  interpolation, and interpolations \<^verbatim>\<open>${\<close> body \<^verbatim>\<open>}\<close>.
\<close>

inductive balanced :: "string \<Rightarrow> bool" where
  bal_nil: "balanced []"
| bal_char: "c \<noteq> CHR ''{'' \<Longrightarrow> c \<noteq> CHR ''}'' \<Longrightarrow> c \<noteq> CHR 0x5C \<Longrightarrow> c \<noteq> CHR ''$'' \<Longrightarrow>
     balanced t \<Longrightarrow> balanced (c # t)"
| bal_escape: "balanced t \<Longrightarrow> balanced (CHR 0x5C # c # t)"
| bal_dollar_end: "balanced [CHR ''$'']"
| bal_dollar: "c \<noteq> CHR ''{'' \<Longrightarrow> balanced (c # t) \<Longrightarrow> balanced (CHR ''$'' # c # t)"
| bal_brace: "balanced a \<Longrightarrow> balanced b \<Longrightarrow> balanced (CHR ''{'' # a @ CHR ''}'' # b)"

inductive template_text :: "string \<Rightarrow> bool" where
  tt_nil: "template_text []"
| tt_char: "c \<noteq> CHR 0x60 \<Longrightarrow> c \<noteq> CHR 0x5C \<Longrightarrow> c \<noteq> CHR ''$'' \<Longrightarrow>
     template_text t \<Longrightarrow> template_text (c # t)"
| tt_escape: "template_text t \<Longrightarrow> template_text (CHR 0x5C # c # t)"
| tt_dollar_end: "template_text [CHR ''$'']"
| tt_dollar: "c \<noteq> CHR ''{'' \<Longrightarrow> template_text (c # t) \<Longrightarrow> template_text (CHR ''$'' # c # t)"
| tt_interp: "balanced e \<Longrightarrow> template_text t \<Longrightarrow>
     template_text (CHR ''$'' # CHR ''{'' # e @ CHR ''}'' # t)"

text \<open>
  Literal content that runs to the end of the text without a closing backtick.
  \<open>open_body d t\<close>: \<open>t\<close> is the rest of an interpolation that is never closed, read at
  brace nesting depth \<open>d\<close> (the \<^verbatim>\<open>${\<close> counts as the first level): as in a
  \<open>balanced\<close> body a backslash takes the next character with it and no dollar sign is
  followed by an opening brace, but here the depth never comes back to 0. A text is
  \<open>unclosed\<close> when it is a \<open>template_text\<close> followed by nothing more, by one last
  backslash, or by \<^verbatim>\<open>${\<close> and such an open body.
\<close>

inductive open_body :: "nat \<Rightarrow> string \<Rightarrow> bool" where
  ob_nil: "open_body d []"
| ob_char: "c \<noteq> CHR ''{'' \<Longrightarrow> c \<noteq> CHR ''}'' \<Longrightarrow> c \<noteq> CHR 0x5C \<Longrightarrow> c \<noteq> CHR ''$'' \<Longrightarrow>
     open_body d t \<Longrightarrow> open_body d (c # t)"
| ob_escape: "open_body d t \<Longrightarrow> open_body d (CHR 0x5C # c # t)"
| ob_backslash_end: "open_body d [CHR 0x5C]"
| ob_dollar_end: "open_body d [CHR ''$'']"
| ob_dollar: "c \<noteq> CHR ''{'' \<Longrightarrow> open_body d (c # t) \<Longrightarrow> open_body d (CHR ''$'' # c # t)"
| ob_open: "open_body (Suc d) t \<Longrightarrow> open_body d (CHR ''{'' # t)"
| ob_close: "1 \<le> d \<Longrightarrow> open_body d t \<Longrightarrow> open_body (Suc d) (CHR ''}'' # t)"

inductive unclosed :: "string \<Rightarrow> bool" where
  un_text: "template_text t \<Longrightarrow> unclosed t"
| un_backslash: "template_text t \<Longrightarrow> unclosed (t @ [CHR 0x5C])"
| un_interp: "template_text t \<Longrightarrow> open_body 1 b \<Longrightarrow> unclosed (t @ CHR ''$'' # CHR ''{'' # b)"


section \<open>Example source texts\<close>




text \<open>A literal with an escaped backtick: \<^verbatim>\<open>const v = `a\`b`;\<close>.\<close>

definition escaped_source :: string where
  "escaped_source =
     ''function f() {'' @ [CHR 0x0A] @ ''  const v = `a'' @ [CHR 0x5C] @ ''`b`;'' @ [CHR 0x0A] @ ''}''"

text \<open>
  Literals whose interpolation is a quoted brace (\<open>CHR 0x22\<close> is the double quote):
  \<^verbatim>\<open>const v = `a${ "}" }b`;\<close> and \<^verbatim>\<open>const v = `a${ "{" }b`;\<close>.
\<close>

definition quoted_close_source :: string where
  "quoted_close_source =
     ''function f() {'' @ [CHR 0x0A] @ ''  const v = `a${ '' @ [CHR 0x22] @ ''}'' @ [CHR 0x22]
       @ '' }b`;'' @ [CHR 0x0A] @ ''}''"

definition quoted_open_source :: string where
  "quoted_open_source =
     ''function f() {'' @ [CHR 0x0A] @ ''  const v = `a${ '' @ [CHR 0x22] @ ''{'' @ [CHR 0x22]
       @ '' }b`;'' @ [CHR 0x0A] @ ''}''"

text \<open>
  A literal that is closed only after the next line-start function declaration:
  \<^verbatim>\<open>function f() {\n  const v = `abc\nfunction g() {\n}\n`;\n\<close>.
\<close>

definition boundary_source :: string where
  "boundary_source =
     ''function f() {'' @ [CHR 0x0A] @ ''  const v = `abc'' @ [CHR 0x0A] @ ''function g() {''
       @ [CHR 0x0A] @ ''}'' @ [CHR 0x0A] @ ''`;'' @ [CHR 0x0A]"

text \<open>
  Two functions that assign a template literal to the same variable, \<open>A\<close> declared
  inside \<open>B\<close> and indented:
  \<^verbatim>\<open>function B() {\n  function A() {\n    const v = `a`;\n  }\n  const v = `b`;\n}\<close>.
\<close>

definition nested_source :: string where
  "nested_source =
     ''function B() {'' @ [CHR 0x0A] @ ''  function A() {'' @ [CHR 0x0A] @ ''    const v = `a`;''
       @ [CHR 0x0A] @ ''  }'' @ [CHR 0x0A] @ ''  const v = `b`;'' @ [CHR 0x0A] @ ''}''"

text \<open>
  A function whose only assignment is to a longer variable name:
  \<^verbatim>\<open>function f() {\n  const xhtmlBody = `TEXT`;\n}\<close>.
\<close>

definition suffix_source :: string where
  "suffix_source =
     ''function f() {'' @ [CHR 0x0A] @ ''  const xhtmlBody = `TEXT`;'' @ [CHR 0x0A] @ ''}''"

text \<open>
  Two functions one after the other, each declared at the start of a line:
  \<^verbatim>\<open>function A() {\n  const v = `a`;\n}\nfunction B() {\n  const v = `b`;\n}\<close>.
\<close>

definition sequential_source :: string where
  "sequential_source =
     ''function A() {'' @ [CHR 0x0A] @ ''  const v = `a`;'' @ [CHR 0x0A] @ ''}'' @ [CHR 0x0A]
       @ ''function B() {'' @ [CHR 0x0A] @ ''  const v = `b`;'' @ [CHR 0x0A] @ ''}''"

text \<open>A literal that is never closed: \<^verbatim>\<open>function f() {\n  const v = `abc;\n}\<close>.\<close>

definition open_source :: string where
  "open_source = ''function f() {'' @ [CHR 0x0A] @ ''  const v = `abc;'' @ [CHR 0x0A] @ ''}''"

text \<open>
  A literal whose interpolation holds a nested literal with an interpolation of its
  own: \<^verbatim>\<open>const v = `x${ `y${z}` }w`;\<close>.
\<close>

definition nested_literal_source :: string where
  "nested_literal_source =
     ''function f() {'' @ [CHR 0x0A] @ ''  const v = `x${ `y${z}` }w`;'' @ [CHR 0x0A] @ ''}''"



text \<open>
  Literals that are never closed: one followed only by an escaped backtick,
  \<^verbatim>\<open>const v = `abc\`;\<close>, and one that ends inside an interpolation,
  \<^verbatim>\<open>const v = `a${ {b}`;\<close>.
\<close>

definition escaped_open_source :: string where
  "escaped_open_source =
     ''function f() {'' @ [CHR 0x0A] @ ''  const v = `abc'' @ [CHR 0x5C] @ ''`;'' @ [CHR 0x0A] @ ''}''"

definition open_interpolation_source :: string where
  "open_interpolation_source =
     ''function f() {'' @ [CHR 0x0A] @ ''  const v = `a${ {b}`;'' @ [CHR 0x0A]"

section \<open>Counting the iterations of the scan\<close>

text \<open>
  The number of times the body of the \<^verbatim>\<open>while\<close> loop runs from a given state: the
  recursion of \<open>scan\<close>, counting instead of returning the state.
\<close>

function iterations :: "string \<Rightarrow> nat \<Rightarrow> int \<Rightarrow> bool \<Rightarrow> int \<Rightarrow> nat" where
  "iterations code pos depth in_expression expr_depth =
     (if pos < length code \<and> depth > 0 then
        (case loop_body code pos depth in_expression expr_depth of
           (Break, final) \<Rightarrow> 1
         | (Proceed, pos', depth', in_expression', expr_depth') \<Rightarrow>
             1 + iterations code pos' depth' in_expression' expr_depth')
      else 0)"
  by pat_completeness auto
termination
  by (relation "measure (\<lambda>(code, pos, depth, in_expression, expr_depth). length code - pos)")
     (auto simp: loop_body_def split: if_splits)

declare iterations.simps [simp del]

section \<open>The matcher computes the language of a pattern\<close>

lemma set_lit: "set (lit l s) = {t. s = l @ t}"
  by (induction l s rule: lit.induct) auto

lemma star_run_cons:
  assumes "in_class k x"
  shows "{t. \<exists>m. x # xs = m @ t \<and> list_all (in_class k) m}
       = insert (x # xs) {t. \<exists>m. xs = m @ t \<and> list_all (in_class k) m}"
proof (intro set_eqI iffI)
  fix t assume "t \<in> {t. \<exists>m. x # xs = m @ t \<and> list_all (in_class k) m}"
  then obtain m where m: "x # xs = m @ t" "list_all (in_class k) m" by blast
  show "t \<in> insert (x # xs) {t. \<exists>m. xs = m @ t \<and> list_all (in_class k) m}"
  proof (cases m)
    case Nil
    with m show ?thesis by simp
  next
    case (Cons y ys)
    with m have "xs = ys @ t" "list_all (in_class k) ys" by auto
    then show ?thesis by blast
  qed
next
  fix t assume "t \<in> insert (x # xs) {t. \<exists>m. xs = m @ t \<and> list_all (in_class k) m}"
  then consider "t = x # xs" | m where "xs = m @ t" "list_all (in_class k) m" by blast
  then show "t \<in> {t. \<exists>m. x # xs = m @ t \<and> list_all (in_class k) m}"
  proof cases
    case 1
    then have "x # xs = [] @ t \<and> list_all (in_class k) []" by simp
    then show ?thesis by blast
  next
    case 2
    then have "x # xs = (x # m) @ t \<and> list_all (in_class k) (x # m)" using assms by simp
    then show ?thesis by blast
  qed
qed

lemma star_run_stop:
  assumes "\<not> in_class k x"
  shows "{t. \<exists>m. x # xs = m @ t \<and> list_all (in_class k) m} = {x # xs}"
proof (intro set_eqI iffI)
  fix t assume "t \<in> {t. \<exists>m. x # xs = m @ t \<and> list_all (in_class k) m}"
  then obtain m where m: "x # xs = m @ t" "list_all (in_class k) m" by blast
  with assms have "m = []" by (cases m) auto
  with m show "t \<in> {x # xs}" by simp
next
  fix t assume "t \<in> {x # xs}"
  then have "x # xs = [] @ t \<and> list_all (in_class k) []" by simp
  then show "t \<in> {t. \<exists>m. x # xs = m @ t \<and> list_all (in_class k) m}" by blast
qed

lemma set_star: "set (star k s) = {t. \<exists>m. s = m @ t \<and> list_all (in_class k) m}"
proof (induction k s rule: star.induct)
  case (1 k)
  then show ?case by auto
next
  case (2 k x xs)
  then show ?case
    by (cases "in_class k x") (simp_all add: star_run_cons star_run_stop)
qed

lemma set_matches: "set (matches r s) = {t. \<exists>m. m \<in> lang r \<and> s = m @ t}"
proof (induction r arbitrary: s)
  case (Lit l)
  then show ?case by (auto simp: set_lit)
next
  case (Star k)
  then show ?case by (auto simp: set_star)
next
  case (Plus k)
  show ?case
  proof (cases s)
    case Nil
    then show ?thesis by auto
  next
    case (Cons x xs)
    show ?thesis
    proof (intro set_eqI iffI)
      fix t assume "t \<in> set (matches (Plus k) s)"
      with Cons have x: "in_class k x" and "t \<in> set (star k xs)" by (auto split: if_splits)
      then obtain m where "xs = m @ t" "list_all (in_class k) m" by (auto simp: set_star)
      with x Cons have "x # m \<in> lang (Plus k) \<and> s = (x # m) @ t" by simp
      then show "t \<in> {t. \<exists>m. m \<in> lang (Plus k) \<and> s = m @ t}" by blast
    next
      fix t assume "t \<in> {t. \<exists>m. m \<in> lang (Plus k) \<and> s = m @ t}"
      then obtain m where m: "m \<noteq> []" "list_all (in_class k) m" "s = m @ t" by auto
      then obtain y ys where ys: "m = y # ys" by (cases m) auto
      with m Cons have "in_class k x" "xs = ys @ t" "list_all (in_class k) ys" by auto
      then have "t \<in> set (star k xs)" by (auto simp: set_star)
      with Cons \<open>in_class k x\<close> show "t \<in> set (matches (Plus k) s)" by simp
    qed
  qed
next
  case (Seq a b)
  show ?case
  proof (intro set_eqI iffI)
    fix t assume "t \<in> set (matches (Seq a b) s)"
    then obtain u where "u \<in> set (matches a s)" "t \<in> set (matches b u)" by auto
    then obtain m n where "m \<in> lang a" "s = m @ u" "n \<in> lang b" "u = n @ t"
      using Seq by blast
    then have "m @ n \<in> lang (Seq a b) \<and> s = (m @ n) @ t" by auto
    then show "t \<in> {t. \<exists>m. m \<in> lang (Seq a b) \<and> s = m @ t}" by blast
  next
    fix t assume "t \<in> {t. \<exists>m. m \<in> lang (Seq a b) \<and> s = m @ t}"
    then obtain m n where mn: "m \<in> lang a" "n \<in> lang b" "s = (m @ n) @ t" by auto
    then have "n @ t \<in> set (matches a s)" using Seq.IH(1)[of s] by auto
    moreover have "t \<in> set (matches b (n @ t))" using Seq.IH(2)[of "n @ t"] mn by auto
    ultimately show "t \<in> set (matches (Seq a b) s)" by auto
  qed
next
  case (Alt a b)
  then show ?case by auto
next
  case (Opt a)
  then show ?case by auto
qed

lemma match_end_None_iff: "match_end r s = None \<longleftrightarrow> (\<forall>j. \<not> occurs_at r s 0 j)"
proof -
  have "match_end r s = None \<longleftrightarrow> set (matches r s) = {}"
    by (auto simp: match_end_def split: list.splits)
  also have "\<dots> \<longleftrightarrow> (\<forall>m t. m \<in> lang r \<longrightarrow> s \<noteq> m @ t)"
    unfolding set_matches by blast
  also have "\<dots> \<longleftrightarrow> (\<forall>j. \<not> occurs_at r s 0 j)"
  proof
    assume a: "\<forall>m t. m \<in> lang r \<longrightarrow> s \<noteq> m @ t"
    show "\<forall>j. \<not> occurs_at r s 0 j"
    proof (intro allI notI)
      fix j assume "occurs_at r s 0 j"
      then have "take j s \<in> lang r" by (simp add: occurs_at_def slice_def)
      with a have "s \<noteq> take j s @ drop j s" by blast
      then show False by simp
    qed
  next
    assume a: "\<forall>j. \<not> occurs_at r s 0 j"
    show "\<forall>m t. m \<in> lang r \<longrightarrow> s \<noteq> m @ t"
    proof (intro allI impI notI)
      fix m t assume "m \<in> lang r" "s = m @ t"
      then have "occurs_at r s 0 (length m)" by (simp add: occurs_at_def slice_def)
      with a show False by blast
    qed
  qed
  finally show ?thesis .
qed

lemma match_end_Some:
  assumes "match_end r s = Some n"
  shows "occurs_at r s 0 n"
proof -
  from assms obtain t ts where ts: "matches r s = t # ts" and n: "n = length s - length t"
    by (auto simp: match_end_def split: list.splits)
  then have "t \<in> set (matches r s)" by simp
  then obtain m where m: "m \<in> lang r" "s = m @ t" unfolding set_matches by blast
  with n show ?thesis by (simp add: occurs_at_def slice_def)
qed

lemma occurs_at_Cons: "occurs_at r (c # cs) (Suc i) j \<longleftrightarrow> (\<exists>j'. j = Suc j' \<and> occurs_at r cs i j')"
  by (cases j) (auto simp: occurs_at_def slice_def)

lemma occurs_at_Nil: "occurs_at r [] i j \<longleftrightarrow> i = 0 \<and> j = 0 \<and> [] \<in> lang r"
  by (auto simp: occurs_at_def slice_def)

lemma occurs_at_split:
  "(\<forall>a b. \<not> occurs_at r (c # cs) a b) \<longleftrightarrow>
     (\<forall>b. \<not> occurs_at r (c # cs) 0 b) \<and> (\<forall>a b. \<not> occurs_at r cs a b)"
proof (intro iffI conjI allI)
  fix a b assume h: "(\<forall>b. \<not> occurs_at r (c # cs) 0 b) \<and> (\<forall>a b. \<not> occurs_at r cs a b)"
  show "\<not> occurs_at r (c # cs) a b"
    using h by (cases a) (auto simp: occurs_at_Cons)
next
  fix a b assume h: "\<forall>a b. \<not> occurs_at r (c # cs) a b"
  then have "\<not> occurs_at r (c # cs) (Suc a) (Suc b)" by blast
  then show "\<not> occurs_at r cs a b" by (simp add: occurs_at_Cons)
next
  fix b assume h: "\<forall>a b. \<not> occurs_at r (c # cs) a b"
  then show "\<not> occurs_at r (c # cs) 0 b" by blast
qed

lemma search_from_None_iff: "search_from r s i = None \<longleftrightarrow> (\<forall>a b. \<not> occurs_at r s a b)"
proof (induction s arbitrary: i)
  case Nil
  have "match_end r [] = None \<longleftrightarrow> (\<forall>a b. \<not> occurs_at r [] a b)"
    unfolding match_end_None_iff by (auto simp: occurs_at_Nil)
  then show ?case by (auto split: option.splits)
next
  case (Cons c cs)
  show ?case
  proof (cases "match_end r (c # cs)")
    case None
    then have "\<forall>b. \<not> occurs_at r (c # cs) 0 b" by (simp add: match_end_None_iff)
    with None Cons[of "i + 1"] show ?thesis by (simp add: occurs_at_split)
  next
    case (Some n)
    from match_end_Some[OF Some] have "\<not> (\<forall>a b. \<not> occurs_at r (c # cs) a b)" by blast
    with Some show ?thesis by simp
  qed
qed

lemma search_from_Some:
  assumes "search_from r s i = Some (a, b)"
  shows "i \<le> a \<and> a \<le> b \<and> occurs_at r s (a - i) (b - i)
         \<and> (\<forall>a' b'. a' < a - i \<longrightarrow> \<not> occurs_at r s a' b')"
  using assms
proof (induction s arbitrary: i)
  case Nil
  then obtain n where n: "match_end r [] = Some n" and ab: "a = i" "b = i + n"
    by (auto split: option.splits)
  from match_end_Some[OF n] ab show ?case by simp
next
  case (Cons c cs)
  show ?case
  proof (cases "match_end r (c # cs)")
    case (Some n)
    with Cons.prems have ab: "a = i" "b = i + n" by auto
    from match_end_Some[OF Some] ab show ?thesis by simp
  next
    case None
    with Cons.prems have "search_from r cs (i + 1) = Some (a, b)" by simp
    from Cons.IH[OF this]
    have ia: "i + 1 \<le> a" and ab: "a \<le> b" and occ: "occurs_at r cs (a - (i + 1)) (b - (i + 1))"
      and first: "\<forall>a' b'. a' < a - (i + 1) \<longrightarrow> \<not> occurs_at r cs a' b'" by auto
    have a_eq: "a - i = Suc (a - (i + 1))" using ia by simp
    have b_eq: "b - i = Suc (b - (i + 1))" using ia ab by simp
    have "occurs_at r (c # cs) (a - i) (b - i)"
      unfolding a_eq b_eq occurs_at_Cons using occ by simp
    moreover have "\<not> occurs_at r (c # cs) a' b'" if "a' < a - i" for a' b'
    proof (cases a')
      case 0
      with None show ?thesis by (simp add: match_end_None_iff)
    next
      case (Suc k)
      with that a_eq have "k < a - (i + 1)" by simp
      with first Suc show ?thesis by (auto simp: occurs_at_Cons)
    qed
    ultimately show ?thesis using ia ab by auto
  qed
qed

lemma re_search_None_iff: "re_search r s = None \<longleftrightarrow> (\<forall>a b. \<not> occurs_at r s a b)"
  by (simp add: re_search_def search_from_None_iff)

lemma re_search_Some:
  assumes "re_search r s = Some (a, b)"
  shows "occurs_at r s a b" and "\<And>a' b'. a' < a \<Longrightarrow> \<not> occurs_at r s a' b'"
  using search_from_Some[of r s 0 a b] assms by (auto simp: re_search_def)


section \<open>The patterns of the source denote the shapes of the spec\<close>



















section \<open>The scan and its final state\<close>

text \<open>The loop as the source writes it, with the body inlined.\<close>

lemma scan_unfold:
  "scan code pos depth in_expression expr_depth =
     (if pos < length code \<and> depth > 0 then
        (if code ! pos = CHR 0x5C \<and> pos + 1 < length code then
           scan code (pos + 2) depth in_expression expr_depth
         else if code ! pos = CHR 0x60 \<and> \<not> in_expression then
           (if depth - 1 = 0 then (pos, depth - 1, in_expression, expr_depth)
            else scan code (pos + 1) (depth - 1) in_expression expr_depth)
         else if code ! pos = CHR ''$'' \<and> pos + 1 < length code \<and> code ! (pos + 1) = CHR ''{'' then
           scan code (pos + 1 + 1) depth True 1
         else if in_expression then
           (if code ! pos = CHR ''{'' then
              scan code (pos + 1) depth in_expression (expr_depth + 1)
            else if code ! pos = CHR ''}'' then
              (if expr_depth - 1 = 0 then scan code (pos + 1) depth False (expr_depth - 1)
               else scan code (pos + 1) depth in_expression (expr_depth - 1))
            else scan code (pos + 1) depth in_expression expr_depth)
         else scan code (pos + 1) depth in_expression expr_depth)
      else (pos, depth, in_expression, expr_depth))"
  by (subst scan.simps) (simp add: loop_body_def)

lemma scan_exit:
  "\<not> (pos < length code \<and> depth > 0) \<Longrightarrow>
     scan code pos depth in_expression expr_depth = (pos, depth, in_expression, expr_depth)"
  by (subst scan.simps) auto

lemma loop_body_progress:
  assumes "pos < length code"
    and "loop_body code pos depth ie ed = (fl, pos', depth', ie', ed')"
  shows "(fl = Proceed \<and> (pos' = pos + 1 \<or> pos' = pos + 2) \<and> pos' \<le> length code)
       \<or> (fl = Break \<and> pos' = pos \<and> depth' = 0)"
  using assms by (auto simp: loop_body_def split: if_splits)

lemma loop_body_depth:
  assumes "0 < depth" and "loop_body code pos depth ie ed = (fl, pos', depth', ie', ed')"
  shows "(fl = Proceed \<longrightarrow> 0 < depth') \<and> (fl = Break \<longrightarrow> depth' = 0 \<and> code ! pos = CHR 0x60 \<and> \<not> ie \<and> \<not> ie' \<and> ed' = ed)"
  using assms by (auto simp: loop_body_def split: if_splits)

lemma loop_body_inv:
  assumes "ie = (0 < ed)" and "0 \<le> ed"
    and "loop_body code pos depth ie ed = (fl, pos', depth', ie', ed')"
  shows "ie' = (0 < ed') \<and> 0 \<le> ed'"
  using assms by (auto simp: loop_body_def split: if_splits)

text \<open>Properties of the final state, by computation induction.\<close>

lemma scan_final:
  assumes "scan code pos depth ie ed = (pos', depth', ie', ed')"
    and "pos \<le> length code" and "0 < depth" and "ie = (0 < ed)" and "0 \<le> ed"
  shows "pos \<le> pos' \<and> pos' \<le> length code \<and> 0 \<le> depth'
       \<and> (depth' = 0 \<longrightarrow> pos' < length code \<and> code ! pos' = CHR 0x60 \<and> \<not> ie' \<and> ed' = 0)
       \<and> (depth' \<noteq> 0 \<longrightarrow> pos' = length code)"
  using assms
proof (induction code pos depth ie ed rule: scan.induct)
  case (1 code pos depth ie ed)
  show ?case
  proof (cases "pos < length code \<and> depth > 0")
    case False
    with "1.prems" show ?thesis by (simp add: scan_exit)
  next
    case True
    obtain fl p1 d1 i1 e1 where lb: "loop_body code pos depth ie ed = (fl, p1, d1, i1, e1)"
      by (metis prod_cases5)
    from True have pl: "pos < length code" by simp
    note prog = loop_body_progress[OF pl lb]
    note dep = loop_body_depth[OF "1.prems"(3) lb]
    note inv = loop_body_inv[OF "1.prems"(4,5) lb]
    show ?thesis
    proof (cases fl)
      case Break
      with "1.prems"(1) True lb have "(pos', depth', ie', ed') = (p1, d1, i1, e1)"
        by (subst (asm) scan.simps) simp
      with Break prog dep inv pl "1.prems"(4) show ?thesis by auto
    next
      case Proceed
      with "1.prems"(1) True lb have eq: "scan code p1 d1 i1 e1 = (pos', depth', ie', ed')"
        by (subst (asm) scan.simps) simp
      from Proceed prog dep inv have "p1 \<le> length code" "0 < d1" "i1 = (0 < e1)" "0 \<le> e1" by auto
      from "1.IH"[OF True lb[symmetric] Proceed refl refl refl eq this]
      have "p1 \<le> pos' \<and> pos' \<le> length code \<and> 0 \<le> depth'
       \<and> (depth' = 0 \<longrightarrow> pos' < length code \<and> code ! pos' = CHR 0x60 \<and> \<not> ie' \<and> ed' = 0)
       \<and> (depth' \<noteq> 0 \<longrightarrow> pos' = length code)" by simp
      with Proceed prog show ?thesis by auto
    qed
  qed
qed

text \<open>Single iterations at a known character: the text is \<open>pre @ c # rest\<close>, the position \<open>length pre\<close>.\<close>

lemma step_expr_plain:
  assumes "0 < dp" "c \<noteq> CHR ''{''" "c \<noteq> CHR ''}''" "c \<noteq> CHR 0x5C" "c \<noteq> CHR ''$''"
  shows "scan (pre @ c # rest) (length pre) dp True d = scan (pre @ c # rest) (length pre + 1) dp True d"
  using assms by (subst scan_unfold) simp

lemma step_expr_open:
  assumes "0 < dp"
  shows "scan (pre @ CHR ''{'' # rest) (length pre) dp True d
       = scan (pre @ CHR ''{'' # rest) (length pre + 1) dp True (d + 1)"
  using assms by (subst scan_unfold) simp

lemma step_expr_close:
  assumes "0 < dp"
  shows "scan (pre @ CHR ''}'' # rest) (length pre) dp True d
       = scan (pre @ CHR ''}'' # rest) (length pre + 1) dp (d - 1 \<noteq> 0) (d - 1)"
  using assms by (subst scan_unfold) simp

lemma step_text_plain:
  assumes "0 < dp" "c \<noteq> CHR 0x60" "c \<noteq> CHR 0x5C" "c \<noteq> CHR ''$''"
  shows "scan (pre @ c # rest) (length pre) dp False d = scan (pre @ c # rest) (length pre + 1) dp False d"
  using assms by (subst scan_unfold) simp

lemma step_escape:
  assumes "0 < dp"
  shows "scan (pre @ CHR 0x5C # c # rest) (length pre) dp ie d
       = scan (pre @ CHR 0x5C # c # rest) (length pre + 2) dp ie d"
  using assms by (subst scan_unfold) simp

lemma step_dollar_end:
  assumes "0 < dp"
  shows "scan (pre @ [CHR ''$'']) (length pre) dp False d = scan (pre @ [CHR ''$'']) (length pre + 1) dp False d"
  using assms by (subst scan_unfold) simp

lemma step_dollar:
  assumes "0 < dp" "c \<noteq> CHR ''{''"
  shows "scan (pre @ CHR ''$'' # c # rest) (length pre) dp False d
       = scan (pre @ CHR ''$'' # c # rest) (length pre + 1) dp False d"
  using assms by (subst scan_unfold) (simp add: nth_append)

lemma step_interp:
  assumes "0 < dp"
  shows "scan (pre @ CHR ''$'' # CHR ''{'' # rest) (length pre) dp ie d
       = scan (pre @ CHR ''$'' # CHR ''{'' # rest) (length pre + 2) dp True 1"
  using assms by (subst scan_unfold) (simp add: nth_append)

lemma step_backtick:
  "scan (pre @ CHR 0x60 # rest) (length pre) 1 False d = (length pre, 0, False, d)"
  by (subst scan_unfold) simp

lemma step_expr_dollar_end:
  assumes "0 < dp"
  shows "scan (pre @ [CHR ''$'']) (length pre) dp True d = scan (pre @ [CHR ''$'']) (length pre + 1) dp True d"
  using assms by (subst scan_unfold) simp

lemma step_expr_dollar:
  assumes "0 < dp" "c \<noteq> CHR ''{''"
  shows "scan (pre @ CHR ''$'' # c # rest) (length pre) dp True d
       = scan (pre @ CHR ''$'' # c # rest) (length pre + 1) dp True d"
  using assms by (subst scan_unfold) (simp add: nth_append)

lemma step_backslash_end:
  assumes "0 < dp"
  shows "scan (pre @ [CHR 0x5C]) (length pre) dp ie d = scan (pre @ [CHR 0x5C]) (length pre + 1) dp ie d"
  using assms by (subst scan_unfold) simp

text \<open>
  An interpolation body is passed over with the nesting depth it was entered with,
  provided the character that follows it does not turn a final dollar sign into an
  opener.
\<close>

lemma balanced_skip:
  assumes "balanced e" and "0 < dp" and "1 \<le> d" and "rest = [] \<or> hd rest \<noteq> CHR ''{''"
  shows "scan (pre @ e @ rest) (length pre) dp True d
       = scan (pre @ e @ rest) (length pre + length e) dp True d"
  using assms
proof (induction e arbitrary: pre rest d rule: balanced.induct)
  case bal_nil
  show ?case by simp
next
  case (bal_char c t)
  have "scan (pre @ (c # t) @ rest) (length pre) dp True d
      = scan (pre @ c # t @ rest) (length pre + 1) dp True d"
    using step_expr_plain[of dp c pre "t @ rest" d] bal_char by simp
  also have "\<dots> = scan ((pre @ [c]) @ t @ rest) (length (pre @ [c]) + length t) dp True d"
    using bal_char.IH[of d rest "pre @ [c]"] bal_char.prems by simp
  finally show ?case by simp
next
  case (bal_escape t c)
  have "scan (pre @ (CHR 0x5C # c # t) @ rest) (length pre) dp True d
      = scan (pre @ CHR 0x5C # c # t @ rest) (length pre + 2) dp True d"
    using step_escape[of dp pre c "t @ rest" True d] bal_escape by simp
  also have "\<dots> = scan ((pre @ [CHR 0x5C, c]) @ t @ rest) (length (pre @ [CHR 0x5C, c]) + length t) dp True d"
    using bal_escape.IH[of d rest "pre @ [CHR 0x5C, c]"] bal_escape.prems by simp
  finally show ?case by simp
next
  case bal_dollar_end
  show ?case
  proof (cases rest)
    case Nil
    then show ?thesis using step_expr_dollar_end[of dp pre d] bal_dollar_end by simp
  next
    case (Cons x xs)
    with bal_dollar_end have "x \<noteq> CHR ''{''" by simp
    then show ?thesis using step_expr_dollar[of dp x pre xs d] bal_dollar_end Cons by simp
  qed
next
  case (bal_dollar c t)
  have "scan (pre @ (CHR ''$'' # c # t) @ rest) (length pre) dp True d
      = scan (pre @ CHR ''$'' # c # t @ rest) (length pre + 1) dp True d"
    using step_expr_dollar[of dp c pre "t @ rest" d] bal_dollar by simp
  also have "\<dots> = scan ((pre @ [CHR ''$'']) @ (c # t) @ rest) (length (pre @ [CHR ''$'']) + length (c # t)) dp True d"
    using bal_dollar.IH[of d rest "pre @ [CHR ''$'']"] bal_dollar.prems by simp
  finally show ?case by simp
next
  case (bal_brace a b)
  let ?code = "pre @ (CHR ''{'' # a @ CHR ''}'' # b) @ rest"
  have d1: "1 \<le> d + 1" using bal_brace.prems by simp
  have "scan ?code (length pre) dp True d = scan ?code (length pre + 1) dp True (d + 1)"
    using step_expr_open[of dp pre "a @ CHR ''}'' # b @ rest" d] bal_brace.prems by simp
  also have "\<dots> = scan ?code (length pre + 1 + length a) dp True (d + 1)"
    using bal_brace.IH(1)[of "d + 1" "CHR ''}'' # b @ rest" "pre @ [CHR ''{'']"] bal_brace.prems by simp
  also have "\<dots> = scan ?code (length pre + 1 + length a + 1) dp True d"
    using step_expr_close[of dp "pre @ CHR ''{'' # a" "b @ rest" "d + 1"] bal_brace.prems by simp
  also have "\<dots> = scan ?code (length pre + 1 + length a + 1 + length b) dp True d"
    using bal_brace.IH(2)[of d rest "pre @ CHR ''{'' # a @ [CHR ''}'']"] bal_brace.prems by simp
  finally show ?case by (simp add: add.assoc)
qed

text \<open>
  A well-formed literal content is passed over outside any interpolation, provided the
  character that follows it does not turn a final dollar sign into an opener.
\<close>

lemma template_text_skip:
  assumes "template_text t" and "0 < dp" and "rest = [] \<or> hd rest \<noteq> CHR ''{''"
  shows "scan (pre @ t @ rest) (length pre) dp False 0
       = scan (pre @ t @ rest) (length pre + length t) dp False 0"
  using assms
proof (induction t arbitrary: pre rule: template_text.induct)
  case tt_nil
  show ?case by simp
next
  case (tt_char c t)
  have "scan (pre @ (c # t) @ rest) (length pre) dp False 0
      = scan (pre @ c # t @ rest) (length pre + 1) dp False 0"
    using step_text_plain[of dp c pre "t @ rest" 0] tt_char by simp
  also have "\<dots> = scan ((pre @ [c]) @ t @ rest) (length (pre @ [c]) + length t) dp False 0"
    using tt_char.IH[of "pre @ [c]"] tt_char.prems by simp
  finally show ?case by simp
next
  case (tt_escape t c)
  have "scan (pre @ (CHR 0x5C # c # t) @ rest) (length pre) dp False 0
      = scan (pre @ CHR 0x5C # c # t @ rest) (length pre + 2) dp False 0"
    using step_escape[of dp pre c "t @ rest" False 0] tt_escape by simp
  also have "\<dots> = scan ((pre @ [CHR 0x5C, c]) @ t @ rest) (length (pre @ [CHR 0x5C, c]) + length t) dp False 0"
    using tt_escape.IH[of "pre @ [CHR 0x5C, c]"] tt_escape.prems by simp
  finally show ?case by simp
next
  case tt_dollar_end
  show ?case
  proof (cases rest)
    case Nil
    then show ?thesis using step_dollar_end[of dp pre 0] tt_dollar_end by simp
  next
    case (Cons x xs)
    with tt_dollar_end have "x \<noteq> CHR ''{''" by simp
    then show ?thesis using step_dollar[of dp x pre xs 0] tt_dollar_end Cons by simp
  qed
next
  case (tt_dollar c t)
  have "scan (pre @ (CHR ''$'' # c # t) @ rest) (length pre) dp False 0
      = scan (pre @ CHR ''$'' # c # t @ rest) (length pre + 1) dp False 0"
    using step_dollar[of dp c pre "t @ rest" 0] tt_dollar by simp
  also have "\<dots> = scan ((pre @ [CHR ''$'']) @ (c # t) @ rest) (length (pre @ [CHR ''$'']) + length (c # t)) dp False 0"
    using tt_dollar.IH[of "pre @ [CHR ''$'']"] tt_dollar.prems by simp
  finally show ?case by simp
next
  case (tt_interp e t)
  let ?code = "pre @ (CHR ''$'' # CHR ''{'' # e @ CHR ''}'' # t) @ rest"
  have "scan ?code (length pre) dp False 0 = scan ?code (length pre + 2) dp True 1"
    using step_interp[of dp pre "e @ CHR ''}'' # t @ rest" False 0] tt_interp by simp
  also have "\<dots> = scan ?code (length pre + 2 + length e) dp True 1"
    using balanced_skip[OF tt_interp.hyps(1), of dp 1 "CHR ''}'' # t @ rest" "pre @ [CHR ''$'', CHR ''{'']"]
      tt_interp.prems by simp
  also have "\<dots> = scan ?code (length pre + 2 + length e + 1) dp False 0"
    using step_expr_close[of dp "pre @ CHR ''$'' # CHR ''{'' # e" "t @ rest" 1] tt_interp.prems by simp
  also have "\<dots> = scan ?code (length pre + 2 + length e + 1 + length t) dp False 0"
    using tt_interp.IH[of "pre @ CHR ''$'' # CHR ''{'' # e @ [CHR ''}'']"] tt_interp.prems by simp
  finally show ?case by (simp add: add.assoc)
qed

text \<open>The scan of a well-formed literal stops at its closing backtick.\<close>

lemma scan_template_text:
  assumes "template_text t"
  shows "scan (pre @ t @ CHR 0x60 # rest) (length pre) 1 False 0 = (length pre + length t, 0, False, 0)"
proof -
  have "scan (pre @ t @ CHR 0x60 # rest) (length pre) 1 False 0
      = scan (pre @ t @ CHR 0x60 # rest) (length pre + length t) 1 False 0"
    using template_text_skip[OF assms, of 1 "CHR 0x60 # rest" pre] by simp
  also have "\<dots> = (length pre + length t, 0, False, 0)"
    using step_backtick[of "pre @ t" rest 0] by simp
  finally show ?thesis .
qed

lemma template_text_append:
  assumes "template_text a" and "template_text b" and "b = [] \<or> hd b \<noteq> CHR ''{''"
  shows "template_text (a @ b)"
  using assms
proof (induction a rule: template_text.induct)
  case tt_nil
  then show ?case by simp
next
  case (tt_char c t)
  then show ?case by (simp add: template_text.tt_char)
next
  case (tt_escape t c)
  then show ?case by (simp add: template_text.tt_escape)
next
  case tt_dollar_end
  show ?case
  proof (cases b)
    case Nil
    then show ?thesis by (simp add: template_text.tt_dollar_end)
  next
    case (Cons x xs)
    with tt_dollar_end show ?thesis by (simp add: template_text.tt_dollar)
  qed
next
  case (tt_dollar c t)
  then show ?case by (simp add: template_text.tt_dollar)
next
  case (tt_interp e t)
  then have "template_text (CHR ''$'' # CHR ''{'' # e @ CHR ''}'' # (t @ b))"
    by (intro template_text.tt_interp) simp_all
  then show ?case by simp
qed

lemma loop_body_backtick_in_expr:
  assumes "code ! pos = CHR 0x60"
  shows "loop_body code pos depth True expr_depth = (Proceed, pos + 1, depth, True, expr_depth)"
  using assms by (simp add: loop_body_def)

lemma loop_body_Break:
  assumes "loop_body code pos depth ie ed = (Break, final)"
  shows "\<not> ie \<and> code ! pos = CHR 0x60 \<and> final = (pos, 0, ie, ed)"
  using assms by (auto simp: loop_body_def split: if_splits)

lemma loop_body_escape:
  assumes "code ! pos = CHR 0x5C" and "pos + 1 < length code"
  shows "loop_body code pos depth ie ed = (Proceed, pos + 2, depth, ie, ed)"
  using assms by (simp add: loop_body_def)

lemma loop_body_open_brace:
  assumes "code ! pos = CHR ''{''"
  shows "loop_body code pos depth True ed = (Proceed, pos + 1, depth, True, ed + 1)"
  using assms by (simp add: loop_body_def)

lemma loop_body_close_brace:
  assumes "code ! pos = CHR ''}''"
  shows "loop_body code pos depth True ed = (Proceed, pos + 1, depth, ed - 1 \<noteq> 0, ed - 1)"
  using assms by (simp add: loop_body_def)

lemma loop_body_opener:
  assumes "code ! pos = CHR ''$''" and "pos + 1 < length code" and "code ! (pos + 1) = CHR ''{''"
  shows "loop_body code pos depth ie ed = (Proceed, pos + 2, depth, True, 1)"
  using assms by (simp add: loop_body_def)

lemma loop_body_Proceed:
  assumes "pos < length code" and "loop_body code pos depth ie ed = (Proceed, pos', rest)"
  shows "pos' \<le> length code
       \<and> pos' = (if (code ! pos = CHR 0x5C \<and> pos + 1 < length code)
                    \<or> (code ! pos = CHR ''$'' \<and> pos + 1 < length code \<and> code ! (pos + 1) = CHR ''{'')
                 then pos + 2 else pos + 1)"
  using assms by (auto simp: loop_body_def split: if_splits)

lemma iterations_bound: "iterations code pos depth ie ed \<le> length code - pos"
proof (induction code pos depth ie ed rule: iterations.induct)
  case (1 code pos depth ie ed)
  show ?case
  proof (cases "pos < length code \<and> depth > 0")
    case False
    then show ?thesis by (subst iterations.simps) auto
  next
    case True
    obtain fl p1 d1 i1 e1 where lb: "loop_body code pos depth ie ed = (fl, p1, d1, i1, e1)"
      by (metis prod_cases5)
    from True have pl: "pos < length code" by simp
    show ?thesis
    proof (cases fl)
      case Break
      with True lb have "iterations code pos depth ie ed = 1" by (subst iterations.simps) simp
      with pl show ?thesis by simp
    next
      case Proceed
      with True lb have "iterations code pos depth ie ed = 1 + iterations code p1 d1 i1 e1"
        by (subst iterations.simps) simp
      moreover from "1.IH"[OF True lb[symmetric] Proceed refl refl refl]
      have "iterations code p1 d1 i1 e1 \<le> length code - p1" .
      moreover from loop_body_Proceed[OF pl lb[unfolded Proceed]] have "pos < p1" "p1 \<le> length code"
        by (auto split: if_splits)
      ultimately show ?thesis by simp
    qed
  qed
qed

lemma scan_pos_bounds:
  assumes "pos \<le> length code"
  shows "pos \<le> fst (scan code pos depth ie ed) \<and> fst (scan code pos depth ie ed) \<le> length code"
  using assms
proof (induction code pos depth ie ed rule: scan.induct)
  case (1 code pos depth ie ed)
  show ?case
  proof (cases "pos < length code \<and> depth > 0")
    case False
    with "1.prems" show ?thesis by (simp add: scan_exit)
  next
    case True
    obtain fl p1 d1 i1 e1 where lb: "loop_body code pos depth ie ed = (fl, p1, d1, i1, e1)"
      by (metis prod_cases5)
    from True have pl: "pos < length code" by simp
    show ?thesis
    proof (cases fl)
      case Break
      with True lb have "scan code pos depth ie ed = (p1, d1, i1, e1)"
        by (subst scan.simps) simp
      with loop_body_Break[OF lb[unfolded Break]] pl show ?thesis by simp
    next
      case Proceed
      with True lb have eq: "scan code pos depth ie ed = scan code p1 d1 i1 e1"
        by (subst scan.simps) simp
      from loop_body_Proceed[OF pl lb[unfolded Proceed]] have p: "pos < p1" "p1 \<le> length code"
        by (auto split: if_splits)
      from "1.IH"[OF True lb[symmetric] Proceed refl refl refl p(2)] p eq show ?thesis by simp
    qed
  qed
qed

lemma template_text_plain_prefix:
  assumes "list_all (\<lambda>c. c \<noteq> CHR 0x60 \<and> c \<noteq> CHR 0x5C \<and> c \<noteq> CHR ''$'') p"
    and "template_text t"
  shows "template_text (p @ t)"
  using assms by (induction p) (simp_all add: template_text.tt_char)

lemma scan_end_iff:
  assumes "start \<le> length code"
  shows "fst (snd (scan code start 1 False 0)) \<noteq> 0 \<longleftrightarrow> fst (scan code start 1 False 0) = length code"
proof -
  obtain p d i e where sc: "scan code start 1 False 0 = (p, d, i, e)" by (metis prod_cases4)
  from scan_final[OF sc assms] sc show ?thesis by auto
qed

lemma scan_no_backtick:
  assumes "start \<le> length code" and "CHR 0x60 \<notin> set (drop start code)"
  shows "fst (snd (scan code start 1 False 0)) \<noteq> 0"
proof
  assume z: "fst (snd (scan code start 1 False 0)) = 0"
  obtain p d i e where sc: "scan code start 1 False 0 = (p, d, i, e)" by (metis prod_cases4)
  with z have "d = 0" by simp
  with scan_final[OF sc assms(1)] have p: "start \<le> p" "p < length code" "code ! p = CHR 0x60" by auto
  then have "drop start code ! (p - start) = CHR 0x60" by simp
  moreover from p have "p - start < length (drop start code)" by simp
  ultimately have "CHR 0x60 \<in> set (drop start code)" by (metis nth_mem)
  with assms(2) show False by simp
qed

text \<open>An interpolation that is never closed keeps the scan inside it to the end of the text.\<close>

lemma open_body_scan:
  assumes "open_body d b" and "1 \<le> d" and "0 < dp"
  shows "fst (snd (scan (pre @ b) (length pre) dp True (int d))) = dp"
  using assms
proof (induction d b arbitrary: pre rule: open_body.induct)
  case (ob_nil d)
  show ?case by (simp add: scan_exit)
next
  case (ob_char c d t)
  have "scan (pre @ c # t) (length pre) dp True (int d) = scan (pre @ c # t) (length pre + 1) dp True (int d)"
    using step_expr_plain[of dp c pre t "int d"] ob_char by simp
  also have "\<dots> = scan ((pre @ [c]) @ t) (length (pre @ [c])) dp True (int d)" by simp
  finally show ?case using ob_char.IH[of "pre @ [c]"] ob_char.prems by simp
next
  case (ob_escape d t c)
  have "scan (pre @ CHR 0x5C # c # t) (length pre) dp True (int d)
      = scan (pre @ CHR 0x5C # c # t) (length pre + 2) dp True (int d)"
    using step_escape[of dp pre c t True "int d"] ob_escape by simp
  also have "\<dots> = scan ((pre @ [CHR 0x5C, c]) @ t) (length (pre @ [CHR 0x5C, c])) dp True (int d)" by simp
  finally show ?case using ob_escape.IH[of "pre @ [CHR 0x5C, c]"] ob_escape.prems by simp
next
  case (ob_backslash_end d)
  have "scan (pre @ [CHR 0x5C]) (length pre) dp True (int d)
      = scan (pre @ [CHR 0x5C]) (length pre + 1) dp True (int d)"
    using step_backslash_end[of dp pre True "int d"] ob_backslash_end by simp
  then show ?case by (simp add: scan_exit)
next
  case (ob_dollar_end d)
  have "scan (pre @ [CHR ''$'']) (length pre) dp True (int d)
      = scan (pre @ [CHR ''$'']) (length pre + 1) dp True (int d)"
    using step_expr_dollar_end[of dp pre "int d"] ob_dollar_end by simp
  then show ?case by (simp add: scan_exit)
next
  case (ob_dollar c d t)
  have "scan (pre @ CHR ''$'' # c # t) (length pre) dp True (int d)
      = scan (pre @ CHR ''$'' # c # t) (length pre + 1) dp True (int d)"
    using step_expr_dollar[of dp c pre t "int d"] ob_dollar by simp
  also have "\<dots> = scan ((pre @ [CHR ''$'']) @ c # t) (length (pre @ [CHR ''$''])) dp True (int d)" by simp
  finally show ?case using ob_dollar.IH[of "pre @ [CHR ''$'']"] ob_dollar.prems by simp
next
  case (ob_open d t)
  have "scan (pre @ CHR ''{'' # t) (length pre) dp True (int d)
      = scan (pre @ CHR ''{'' # t) (length pre + 1) dp True (int d + 1)"
    using step_expr_open[of dp pre t "int d"] ob_open by simp
  also have "\<dots> = scan ((pre @ [CHR ''{'']) @ t) (length (pre @ [CHR ''{''])) dp True (int (Suc d))"
    by (simp add: add.commute)
  finally show ?case using ob_open.IH[of "pre @ [CHR ''{'']"] ob_open.prems by simp
next
  case (ob_close d t)
  have "scan (pre @ CHR ''}'' # t) (length pre) dp True (int (Suc d))
      = scan (pre @ CHR ''}'' # t) (length pre + 1) dp (int (Suc d) - 1 \<noteq> 0) (int (Suc d) - 1)"
    using step_expr_close[of dp pre t "int (Suc d)"] ob_close by simp
  also have "\<dots> = scan ((pre @ [CHR ''}'']) @ t) (length (pre @ [CHR ''}''])) dp True (int d)"
    using ob_close.hyps by simp
  finally show ?case using ob_close.IH[of "pre @ [CHR ''}'']"] ob_close.hyps ob_close.prems by simp
qed

text \<open>On unclosed literal content the scan ends with \<open>depth\<close> still 1.\<close>

lemma unclosed_scan:
  assumes "unclosed r"
  shows "fst (snd (scan (pre @ r) (length pre) 1 False 0)) = 1"
proof -
  from assms consider "template_text r"
    | t where "r = t @ [CHR 0x5C]" "template_text t"
    | t b where "r = t @ CHR ''$'' # CHR ''{'' # b" "template_text t" "open_body 1 b"
    by (auto elim: unclosed.cases)
  then show ?thesis
  proof cases
    case 1
    have "scan (pre @ r) (length pre) 1 False 0 = scan (pre @ r) (length pre + length r) 1 False 0"
      using template_text_skip[OF 1, of 1 "[]" pre] by simp
    then show ?thesis by (simp add: scan_exit)
  next
    case 2
    have "scan (pre @ t @ [CHR 0x5C]) (length pre) 1 False 0
        = scan (pre @ t @ [CHR 0x5C]) (length pre + length t) 1 False 0"
      using template_text_skip[OF 2(2), of 1 "[CHR 0x5C]" pre] by simp
    also have "\<dots> = scan ((pre @ t) @ [CHR 0x5C]) (length (pre @ t) + 1) 1 False 0"
      using step_backslash_end[of 1 "pre @ t" False 0] by simp
    finally show ?thesis using 2(1) by (simp add: scan_exit)
  next
    case 3
    have "scan (pre @ t @ CHR ''$'' # CHR ''{'' # b) (length pre) 1 False 0
        = scan (pre @ t @ CHR ''$'' # CHR ''{'' # b) (length pre + length t) 1 False 0"
      using template_text_skip[OF 3(2), of 1 "CHR ''$'' # CHR ''{'' # b" pre] by simp
    also have "\<dots> = scan ((pre @ t) @ CHR ''$'' # CHR ''{'' # b) (length (pre @ t) + 2) 1 True 1"
      using step_interp[of 1 "pre @ t" b False 0] by simp
    also have "\<dots> = scan ((pre @ t @ [CHR ''$'', CHR ''{'']) @ b)
        (length (pre @ t @ [CHR ''$'', CHR ''{''])) 1 True (int 1)"
      by simp
    finally show ?thesis
      using open_body_scan[OF 3(3), of 1 "pre @ t @ [CHR ''$'', CHR ''{'']"] 3(1) by simp
  qed
qed

section \<open>The search window and the opening backtick\<close>

lemma occurs_at_drop:
  assumes "k \<le> length s"
  shows "occurs_at r (drop k s) a b \<longleftrightarrow> occurs_at r s (k + a) (k + b)"
  using assms by (auto simp: occurs_at_def slice_def add.commute)

lemma occurs_at_slice:
  assumes "i \<le> j" and "j \<le> length s"
  shows "occurs_at r (slice s i j) a b \<longleftrightarrow> occurs_at r s (i + a) (i + b) \<and> i + b \<le> j"
proof -
  have len: "length (slice s i j) = j - i" using assms by (simp add: slice_def)
  have "slice (slice s i j) a b = slice s (i + a) (i + b)" if "a \<le> b" "b \<le> j - i"
    using that assms by (simp add: slice_def take_drop min_def add.commute)
  then show ?thesis using assms len by (auto simp: occurs_at_def)
qed

lemma func_window_None_iff:
  "func_window code f = None \<longleftrightarrow> (\<forall>a b. \<not> occurs_at (func_pattern f) code a b)"
proof -
  have "func_window code f = None \<longleftrightarrow> re_search (func_pattern f) code = None"
    by (auto simp: func_window_def Let_def split: option.splits)
  then show ?thesis by (simp add: re_search_None_iff)
qed

lemma func_window_Some:
  assumes "func_window code f = Some (fs, fe)"
  shows "\<exists>hs. occurs_at (func_pattern f) code hs fs
             \<and> (\<forall>a b. a < hs \<longrightarrow> \<not> occurs_at (func_pattern f) code a b)"
    and "fs \<le> fe" and "fe \<le> length code"
    and "\<And>a b. fs \<le> a \<Longrightarrow> a < fe \<Longrightarrow> \<not> occurs_at next_func_pattern code a b"
    and "fe = length code \<or> (\<exists>b. occurs_at next_func_pattern code fe b)"
proof -
  from assms obtain hs where hdr: "re_search (func_pattern f) code = Some (hs, fs)"
    by (auto simp: func_window_def Let_def split: option.splits)
  note h = re_search_Some[OF hdr]
  from h show "\<exists>hs. occurs_at (func_pattern f) code hs fs
             \<and> (\<forall>a b. a < hs \<longrightarrow> \<not> occurs_at (func_pattern f) code a b)" by blast
  from h(1) have fl: "fs \<le> length code" by (simp add: occurs_at_def)
  show "fs \<le> fe" using assms hdr fl by (auto simp: func_window_def Let_def split: option.splits)
  show "fe \<le> length code" "\<And>a b. fs \<le> a \<Longrightarrow> a < fe \<Longrightarrow> \<not> occurs_at next_func_pattern code a b"
    "fe = length code \<or> (\<exists>b. occurs_at next_func_pattern code fe b)"
  proof -
    show g1: "fe \<le> length code"
    proof (cases "re_search next_func_pattern (drop fs code)")
      case None
      with assms hdr show ?thesis by (simp add: func_window_def)
    next
      case (Some nf)
      obtain a b where nf: "nf = (a, b)" by (cases nf)
      from re_search_Some(1)[OF Some[unfolded nf]] fl have "occurs_at next_func_pattern code (fs + a) (fs + b)"
        by (simp add: occurs_at_drop)
      moreover from assms hdr Some nf have "fe = fs + a" by (simp add: func_window_def)
      ultimately show ?thesis by (simp add: occurs_at_def)
    qed
    show "\<not> occurs_at next_func_pattern code a b" if "fs \<le> a" "a < fe" for a b
    proof (cases "re_search next_func_pattern (drop fs code)")
      case None
      then have "\<not> occurs_at next_func_pattern (drop fs code) (a - fs) (b - fs)"
        by (simp add: re_search_None_iff)
      moreover have "b < fs \<Longrightarrow> \<not> occurs_at next_func_pattern code a b"
        using that by (simp add: occurs_at_def)
      ultimately show ?thesis using that fl by (cases "b < fs") (simp_all add: occurs_at_drop)
    next
      case (Some nf)
      obtain a0 b0 where nf: "nf = (a0, b0)" by (cases nf)
      from assms hdr Some nf have fe: "fe = fs + a0" by (simp add: func_window_def)
      with that have "a - fs < a0" by simp
      from re_search_Some(2)[OF Some[unfolded nf] this]
      have "\<not> occurs_at next_func_pattern (drop fs code) (a - fs) (b - fs)" .
      moreover have "b < fs \<Longrightarrow> \<not> occurs_at next_func_pattern code a b"
        using that by (simp add: occurs_at_def)
      ultimately show ?thesis using that fl by (cases "b < fs") (simp_all add: occurs_at_drop)
    qed
    show "fe = length code \<or> (\<exists>b. occurs_at next_func_pattern code fe b)"
    proof (cases "re_search next_func_pattern (drop fs code)")
      case None
      with assms hdr show ?thesis by (simp add: func_window_def)
    next
      case (Some nf)
      obtain a b where nf: "nf = (a, b)" by (cases nf)
      from re_search_Some(1)[OF Some[unfolded nf]] fl have "occurs_at next_func_pattern code (fs + a) (fs + b)"
        by (simp add: occurs_at_drop)
      moreover from assms hdr Some nf have "fe = fs + a" by (simp add: func_window_def)
      ultimately show ?thesis by blast
    qed
  qed
qed

lemma lang_assignment_last:
  assumes "m \<in> lang (assignment_pattern v)"
  shows "m \<noteq> [] \<and> last m = CHR 0x60"
  using assms by (auto simp: assignment_pattern_def split: if_splits)

lemma occurs_at_assignment_backtick:
  assumes "occurs_at (assignment_pattern v) s a b"
  shows "a < b \<and> s ! (b - 1) = CHR 0x60"
proof -
  from assms have ab: "a \<le> b" "b \<le> length s" and m: "slice s a b \<in> lang (assignment_pattern v)"
    by (auto simp: occurs_at_def)
  from lang_assignment_last[OF m] have ne: "slice s a b \<noteq> []" and l: "last (slice s a b) = CHR 0x60"
    by auto
  from ne ab have lt: "a < b" by (auto simp: slice_def)
  have "length (slice s a b) = b - a" using ab by (simp add: slice_def)
  then have "last (slice s a b) = slice s a b ! (b - a - 1)" using ne by (simp add: last_conv_nth)
  also have "\<dots> = s ! (b - 1)" using ab lt by (simp add: slice_def)
  finally show ?thesis using l lt by simp
qed

lemma template_start_Inr:
  assumes "template_start code f v = Inr ts"
  shows "\<exists>fs fe a. func_window code f = Some (fs, fe) \<and> fs \<le> a \<and> a < ts \<and> ts \<le> fe
           \<and> occurs_at (assignment_pattern v) code a ts
           \<and> (\<forall>a' b'. fs \<le> a' \<and> a' < a \<and> b' \<le> fe \<longrightarrow> \<not> occurs_at (assignment_pattern v) code a' b')"
proof -
  from assms obtain fs fe am where fw: "func_window code f = Some (fs, fe)"
    and am: "re_search (assignment_pattern v) (slice code fs fe) = Some am"
    and ts: "ts = fs + snd am"
    by (auto simp: template_start_def Let_def split: option.splits)
  obtain a b where ab: "am = (a, b)" by (cases am)
  note w = func_window_Some[OF fw]
  note s = re_search_Some[OF am[unfolded ab]]
  from s(1) w(2,3) have occ: "occurs_at (assignment_pattern v) code (fs + a) (fs + b)" and le: "fs + b \<le> fe"
    by (simp_all add: occurs_at_slice)
  from occurs_at_assignment_backtick[OF occ] have lt: "fs + a < fs + b" by simp
  have "\<not> occurs_at (assignment_pattern v) code a' b'" if "fs \<le> a'" "a' < fs + a" "b' \<le> fe" for a' b'
  proof
    assume o: "occurs_at (assignment_pattern v) code a' b'"
    then have "a' \<le> b'" by (simp add: occurs_at_def)
    with that o have "occurs_at (assignment_pattern v) (slice code fs fe) (a' - fs) (b' - fs)"
      using w(2,3) by (simp add: occurs_at_slice)
    moreover from that have "a' - fs < a" by simp
    ultimately show False using s(2) by blast
  qed
  then have "\<forall>a' b'. fs \<le> a' \<and> a' < fs + a \<and> b' \<le> fe \<longrightarrow> \<not> occurs_at (assignment_pattern v) code a' b'"
    by blast
  moreover have "fs \<le> fs + a" "fs + a < ts" "ts \<le> fe" "occurs_at (assignment_pattern v) code (fs + a) ts"
    using occ le lt ts ab by simp_all
  ultimately show ?thesis using fw by blast
qed

lemma template_start_backtick:
  assumes "template_start code f v = Inr ts"
  shows "0 < ts \<and> ts \<le> length code \<and> code ! (ts - 1) = CHR 0x60"
proof -
  from template_start_Inr[OF assms] obtain a where a: "a < ts"
    and occ: "occurs_at (assignment_pattern v) code a ts" by blast
  from occurs_at_assignment_backtick[OF occ] occ show ?thesis by (simp add: occurs_at_def)
qed

lemma find_Inr:
  assumes "find_function_and_template code f v = Inr (s, e)"
  shows "template_start code f v = Inr s"
    and "\<exists>ie ed. scan code s 1 False 0 = (e, 0, ie, ed)"
  using assms by (auto simp: find_function_and_template_def split: sum.splits prod.splits if_splits)

lemma template_start_not_unterminated: "template_start code f v \<noteq> Inl UnterminatedLiteral"
  by (auto simp: template_start_def Let_def split: option.splits)

lemma find_unterminated_iff:
  "find_function_and_template code f v = Inl UnterminatedLiteral \<longleftrightarrow>
     (\<exists>start. template_start code f v = Inr start \<and> fst (snd (scan code start 1 False 0)) \<noteq> 0)"
  using template_start_not_unterminated[of code f v]
  by (auto simp: find_function_and_template_def split: sum.splits prod.splits)

lemma find_function_not_found_iff:
  "find_function_and_template code f v = Inl FunctionNotFound \<longleftrightarrow> func_window code f = None"
  by (auto simp: find_function_and_template_def template_start_def Let_def
           split: sum.splits option.splits prod.splits)

lemma find_assignment_not_found_iff:
  "find_function_and_template code f v = Inl AssignmentNotFound \<longleftrightarrow>
     (\<exists>fs fe. func_window code f = Some (fs, fe)
              \<and> re_search (assignment_pattern v) (slice code fs fe) = None)"
  by (auto simp: find_function_and_template_def template_start_def Let_def
           split: sum.splits option.splits prod.splits)

lemma error_message_inj:
  assumes "error_message e1 f v = error_message e2 f v"
  shows "e1 = e2"
proof -
  have a: "''function '' @ f \<noteq> v @ '' assignment in '' @ f"
  proof
    assume "''function '' @ f = v @ '' assignment in '' @ f"
    then have "length (''function '' @ f) = length (v @ '' assignment in '' @ f)" by (rule arg_cong)
    then show False by simp
  qed
  have b: "''function '' @ f \<noteq> ''closing backtick for template in '' @ f"
  proof
    assume "''function '' @ f = ''closing backtick for template in '' @ f"
    then have "length (''function '' @ f) = length (''closing backtick for template in '' @ f)"
      by (rule arg_cong)
    then show False by simp
  qed
  have c: "v @ '' assignment in '' @ f \<noteq> ''closing backtick for template in '' @ f"
  proof
    assume "v @ '' assignment in '' @ f = ''closing backtick for template in '' @ f"
    then have "(v @ '' assignment in '') @ f = ''closing backtick for template in '' @ f" by simp
    then have eq: "v @ '' assignment in '' = ''closing backtick for template in ''"
      by (simp only: append_same_eq)
    then have "length (v @ '' assignment in '') = length ''closing backtick for template in ''"
      by (rule arg_cong)
    then have l: "length v = 18" by simp
    from eq have "drop (length v) (v @ '' assignment in '') = drop (length v) ''closing backtick for template in ''"
      by (rule arg_cong)
    then have "'' assignment in '' = drop (length v) ''closing backtick for template in ''"
      by simp
    then have "'' assignment in '' = drop 18 ''closing backtick for template in ''"
      unfolding l .
    then show False by simp
  qed
  from assms a b c a[symmetric] b[symmetric] c[symmetric] show ?thesis
    by (cases e1; cases e2) simp_all
qed








section \<open>The claims\<close>




text \<open>
  C2 does not hold of the code when an interpolation holds another \<^verbatim>\<open>${\<close>. In
  \<open>nested_literal_source\<close> the outer interpolation opens at 29 and its matching brace
  stands at 40. The inner \<^verbatim>\<open>${\<close> at 34 sets \<open>expr_depth\<close> back to 1 where the branch
  for a plain \<^verbatim>\<open>{\<close> would have raised it to 2; the inner \<^verbatim>\<open>}\<close> at 37 then takes it
  to 0 and clears \<open>in_expression\<close>; and the backtick at 38, which closes the nested
  literal and stands inside the outer interpolation, ends the scan. The region returned
  is (28, 38), with content \<^verbatim>\<open>x${ `y${z}\<close>; the literal's own closing backtick is
  at 42.
\<close>

theorem nested_interpolation_closes_early:
  "loop_body nested_literal_source 34 1 True 1 = (Proceed, 36, 1, True, 1)
   \<and> loop_body nested_literal_source 37 1 True 1 = (Proceed, 38, 1, False, 0)
   \<and> loop_body nested_literal_source 38 1 False 0 = (Break, 38, 0, False, 0)
   \<and> find_function_and_template nested_literal_source ''f'' ''v'' = Inr (28, 38)
   \<and> slice nested_literal_source 28 38 = ''x${ `y${z}''
   \<and> nested_literal_source ! 42 = CHR 0x60"
  by code_simp

text \<open>
  C3. A backslash that has a following character consumes it: the iteration advances
  the position by two and changes nothing else, whatever the following character is and
  whatever the state. So an escaped backtick never ends the literal: a literal made of
  well-formed content, an escaped backtick and more well-formed content is scanned to
  its closing backtick, and in \<open>escaped_source\<close> the region found is the full content
  \<^verbatim>\<open>a\`b\<close>.
\<close>

theorem escape_skips_next_character:
  "(code ! pos = CHR 0x5C \<and> pos + 1 < length code \<longrightarrow>
      loop_body code pos depth in_expression expr_depth
      = (Proceed, pos + 2, depth, in_expression, expr_depth))
   \<and> (template_text t1 \<and> template_text t2 \<longrightarrow>
        scan (pre @ t1 @ [CHR 0x5C, CHR 0x60] @ t2 @ CHR 0x60 # rest) (length pre) 1 False 0
        = (length pre + length t1 + 2 + length t2, 0, False, 0))
   \<and> find_function_and_template escaped_source ''f'' ''v'' = Inr (28, 32)
   \<and> slice escaped_source 28 32 = [CHR ''a'', CHR 0x5C, CHR 0x60, CHR ''b'']"
proof (intro conjI impI)
  assume "code ! pos = CHR 0x5C \<and> pos + 1 < length code"
  then show "loop_body code pos depth in_expression expr_depth
      = (Proceed, pos + 2, depth, in_expression, expr_depth)"
    by (simp add: loop_body_escape)
next
  assume t: "template_text t1 \<and> template_text t2"
  then have "template_text (CHR 0x5C # CHR 0x60 # t2)" by (simp add: template_text.tt_escape)
  with t have "template_text (t1 @ CHR 0x5C # CHR 0x60 # t2)"
    by (intro template_text_append) simp_all
  from scan_template_text[OF this, of pre rest]
  show "scan (pre @ t1 @ [CHR 0x5C, CHR 0x60] @ t2 @ CHR 0x60 # rest) (length pre) 1 False 0
        = (length pre + length t1 + 2 + length t2, 0, False, 0)"
    by (simp add: add.assoc)
next
  show "find_function_and_template escaped_source ''f'' ''v'' = Inr (28, 32)" by code_simp
next
  show "slice escaped_source 28 32 = [CHR ''a'', CHR 0x5C, CHR 0x60, CHR ''b'']" by code_simp
qed

theorem escape_skips_next_character_witness:
  "escaped_source ! 29 = CHR 0x5C \<and> escaped_source ! 30 = CHR 0x60
   \<and> loop_body escaped_source 29 1 False 0 = (Proceed, 31, 1, False, 0)
   \<and> scan (''v = `'' @ ''a'' @ [CHR 0x5C, CHR 0x60] @ ''b'' @ CHR 0x60 # '';'') 5 1 False 0
       = (9, 0, False, 0)"
proof -
  have c: "escaped_source ! 29 = CHR 0x5C" "escaped_source ! 30 = CHR 0x60"
    "29 + 1 < length escaped_source" by code_simp+
  have 1: "loop_body escaped_source 29 1 False 0 = (Proceed, 31, 1, False, 0)"
    using escape_skips_next_character[of escaped_source 29 1 False 0, THEN conjunct1] c by simp
  have t: "template_text ''a''" "template_text ''b''"
    by (intro template_text.tt_char template_text.tt_nil; simp)+
  have 2: "scan (''v = `'' @ ''a'' @ [CHR 0x5C, CHR 0x60] @ ''b'' @ CHR 0x60 # '';'') 5 1 False 0
       = (9, 0, False, 0)"
    using escape_skips_next_character[of _ _ _ _ _ "''a''" "''b''" "''v = `''" "'';''",
        THEN conjunct2, THEN conjunct1] t by (simp add: eval_nat_numeral)
  from c 1 2 show ?thesis by blast
qed

text \<open>
  C4, as the code has it. When the text from the located opening backtick to the end of
  the text is \<open>unclosed\<close> literal content (well-formed content followed by nothing
  more, by one last backslash, or by an interpolation that is never closed), or holds
  no backtick at all, the locator fails with \<open>UnterminatedLiteral\<close>. It fails so
  exactly when the opening backtick is located and the scan from it reaches the end of
  the whole text without stopping at a terminating backtick. The next function boundary
  bounds the search for the assignment only, not the scan.
\<close>

theorem unterminated_iff_scan_reaches_end:
  "(find_function_and_template code function_name html_var = Inl UnterminatedLiteral) =
     (\<exists>start. template_start code function_name html_var = Inr start
              \<and> fst (scan code start 1 False 0) = length code)
   \<and> (template_start code function_name html_var = Inr opening
        \<and> unclosed (drop opening code) \<longrightarrow>
      find_function_and_template code function_name html_var = Inl UnterminatedLiteral)
   \<and> (template_start code function_name html_var = Inr opening
        \<and> CHR 0x60 \<notin> set (drop opening code) \<longrightarrow>
      find_function_and_template code function_name html_var = Inl UnterminatedLiteral)"
proof (intro conjI impI)
  have "(\<exists>start. template_start code function_name html_var = Inr start
            \<and> fst (snd (scan code start 1 False 0)) \<noteq> 0) =
        (\<exists>start. template_start code function_name html_var = Inr start
            \<and> fst (scan code start 1 False 0) = length code)"
    using template_start_backtick scan_end_iff by (metis (no_types, lifting))
  then show "(find_function_and_template code function_name html_var = Inl UnterminatedLiteral) =
     (\<exists>start. template_start code function_name html_var = Inr start
              \<and> fst (scan code start 1 False 0) = length code)"
    by (simp add: find_unterminated_iff)
next
  assume a: "template_start code function_name html_var = Inr opening
        \<and> unclosed (drop opening code)"
  then have ts: "template_start code function_name html_var = Inr opening"
    and un: "unclosed (drop opening code)" by simp_all
  from template_start_backtick[OF ts] have le: "opening \<le> length code" by simp
  from unclosed_scan[OF un, of "take opening code"] le
  have "fst (snd (scan code opening 1 False 0)) = 1" by simp
  with ts show "find_function_and_template code function_name html_var = Inl UnterminatedLiteral"
    by (auto simp: find_unterminated_iff)
next
  assume a: "template_start code function_name html_var = Inr opening
        \<and> CHR 0x60 \<notin> set (drop opening code)"
  then have ts: "template_start code function_name html_var = Inr opening" by simp
  from template_start_backtick[OF ts] have "opening \<le> length code" by simp
  from scan_no_backtick[OF this] a ts
  show "find_function_and_template code function_name html_var = Inl UnterminatedLiteral"
    by (auto simp: find_unterminated_iff)
qed

theorem unterminated_iff_scan_reaches_end_witness:
  "template_start escaped_open_source ''f'' ''v'' = Inr 28
   \<and> drop 28 escaped_open_source = ''abc'' @ [CHR 0x5C, CHR 0x60] @ '';'' @ [CHR 0x0A] @ ''}''
   \<and> unclosed (drop 28 escaped_open_source)
   \<and> find_function_and_template escaped_open_source ''f'' ''v'' = Inl UnterminatedLiteral
   \<and> template_start open_interpolation_source ''f'' ''v'' = Inr 28
   \<and> drop 28 open_interpolation_source = ''a${ {b}`;'' @ [CHR 0x0A]
   \<and> unclosed (drop 28 open_interpolation_source)
   \<and> find_function_and_template open_interpolation_source ''f'' ''v'' = Inl UnterminatedLiteral
   \<and> template_start open_source ''f'' ''v'' = Inr 28
   \<and> CHR 0x60 \<notin> set (drop 28 open_source)
   \<and> find_function_and_template open_source ''f'' ''v'' = Inl UnterminatedLiteral"
proof -
  have t1: "template_start escaped_open_source ''f'' ''v'' = Inr 28" by code_simp
  have d1: "drop 28 escaped_open_source = ''abc'' @ [CHR 0x5C, CHR 0x60] @ '';'' @ [CHR 0x0A] @ ''}''"
    by code_simp
  have "template_text ('';'' @ [CHR 0x0A] @ ''}'')"
    using template_text_plain_prefix[of "'';'' @ [CHR 0x0A] @ ''}''" "[]"]
    by (simp add: template_text.tt_nil)
  then have "template_text (CHR 0x5C # CHR 0x60 # '';'' @ [CHR 0x0A] @ ''}'')"
    by (rule template_text.tt_escape)
  then have "template_text (''abc'' @ CHR 0x5C # CHR 0x60 # '';'' @ [CHR 0x0A] @ ''}'')"
    using template_text_plain_prefix[of "''abc''"] by simp
  then have "unclosed (''abc'' @ CHR 0x5C # CHR 0x60 # '';'' @ [CHR 0x0A] @ ''}'')"
    by (rule unclosed.un_text)
  then have u1: "unclosed (drop 28 escaped_open_source)" unfolding d1 by simp
  have r1: "find_function_and_template escaped_open_source ''f'' ''v'' = Inl UnterminatedLiteral"
    using unterminated_iff_scan_reaches_end[of escaped_open_source "''f''" "''v''" 28,
        THEN conjunct2, THEN conjunct1] t1 u1 by simp
  have t2: "template_start open_interpolation_source ''f'' ''v'' = Inr 28" by code_simp
  have d2: "drop 28 open_interpolation_source = ''a${ {b}`;'' @ [CHR 0x0A]" by code_simp
  have "open_body 1 [CHR 0x0A]" by (rule open_body.ob_char) (simp_all add: open_body.ob_nil)
  then have "open_body 1 (CHR '';'' # [CHR 0x0A])" by (rule open_body.ob_char[rotated 4]) simp_all
  then have "open_body 1 (CHR 0x60 # CHR '';'' # [CHR 0x0A])"
    by (rule open_body.ob_char[rotated 4]) simp_all
  then have "open_body (Suc 1) (CHR ''}'' # CHR 0x60 # CHR '';'' # [CHR 0x0A])"
    by (rule open_body.ob_close[rotated]) simp
  then have "open_body (Suc 1) (CHR ''b'' # CHR ''}'' # CHR 0x60 # CHR '';'' # [CHR 0x0A])"
    by (rule open_body.ob_char[rotated 4]) simp_all
  then have "open_body 1 (CHR ''{'' # CHR ''b'' # CHR ''}'' # CHR 0x60 # CHR '';'' # [CHR 0x0A])"
    by (rule open_body.ob_open)
  then have ob: "open_body 1 (CHR '' '' # CHR ''{'' # CHR ''b'' # CHR ''}'' # CHR 0x60 # CHR '';'' # [CHR 0x0A])"
    by (rule open_body.ob_char[rotated 4]) simp_all
  have "template_text ''a''" by (rule template_text.tt_char) (simp_all add: template_text.tt_nil)
  from unclosed.un_interp[OF this ob]
  have u2: "unclosed (drop 28 open_interpolation_source)" unfolding d2 by simp
  have r2: "find_function_and_template open_interpolation_source ''f'' ''v'' = Inl UnterminatedLiteral"
    using unterminated_iff_scan_reaches_end[of open_interpolation_source "''f''" "''v''" 28,
        THEN conjunct2, THEN conjunct1] t2 u2 by simp
  have t3: "template_start open_source ''f'' ''v'' = Inr 28" by code_simp
  have n3: "CHR 0x60 \<notin> set (drop 28 open_source)" by code_simp
  have r3: "find_function_and_template open_source ''f'' ''v'' = Inl UnterminatedLiteral"
    using unterminated_iff_scan_reaches_end[of open_source "''f''" "''v''" 28,
        THEN conjunct2, THEN conjunct2] t3 n3 by simp
  from t1 d1 u1 r1 t2 d2 u2 r2 t3 n3 r3 show ?thesis by (intro conjI)
qed

text \<open>
  In \<open>boundary_source\<close> the search window of \<open>f\<close> ends at position 31, where the line
  \<^verbatim>\<open>function g() {\<close> begins; the literal opened at 28 is closed only at 49. The
  locator does not fail: it returns the region that runs across the boundary.
\<close>

theorem function_boundary_counterexample:
  "func_window boundary_source ''f'' = Some (14, 31)
   \<and> find_function_and_template boundary_source ''f'' ''v'' = Inr (28, 49)
   \<and> slice boundary_source 28 49
       = ''abc'' @ [CHR 0x0A] @ ''function g() {'' @ [CHR 0x0A] @ ''}'' @ [CHR 0x0A]"
  by code_simp

text \<open>
  C5, as the code has it. The scanner tracks no quotes. A \<^verbatim>\<open>${\<close> read outside an
  interpolation opens one at nesting depth 1; inside an interpolation every
  \<^verbatim>\<open>{\<close> the scanner reads increments the depth and every \<^verbatim>\<open>}\<close> it reads
  decrements it, quoted or not, and depth 0 closes the interpolation. (A backslash
  takes the next character along unread; a \<^verbatim>\<open>${\<close> inside an interpolation is read as
  one token and is left aside here.) So a \<open>template_text\<close>, whose interpolation bodies
  hold no \<^verbatim>\<open>${\<close> and have their unescaped braces paired up, quoted ones counted, is
  scanned to its closing backtick, and so is the claim's example \<^verbatim>\<open>${ "}" }\<close>,
  where the quoted brace closes the interpolation and the rest is read as literal text.
\<close>

theorem brace_depth_counts_every_brace:
  "(code ! pos = CHR ''{'' \<longrightarrow>
      loop_body code pos depth True expr_depth = (Proceed, pos + 1, depth, True, expr_depth + 1))
   \<and> (code ! pos = CHR ''}'' \<longrightarrow>
        loop_body code pos depth True expr_depth
        = (Proceed, pos + 1, depth, expr_depth - 1 \<noteq> 0, expr_depth - 1))
   \<and> (code ! pos = CHR ''$'' \<and> pos + 1 < length code \<and> code ! (pos + 1) = CHR ''{'' \<longrightarrow>
        loop_body code pos depth False expr_depth = (Proceed, pos + 2, depth, True, 1))
   \<and> (template_text t \<longrightarrow>
        scan (pre @ t @ CHR 0x60 # rest) (length pre) 1 False 0
        = (length pre + length t, 0, False, 0))
   \<and> find_function_and_template quoted_close_source ''f'' ''v'' = Inr (28, 38)
   \<and> slice quoted_close_source 28 38 = ''a${ '' @ [CHR 0x22, CHR ''}'', CHR 0x22] @ '' }b''"
proof (intro conjI impI)
  assume "code ! pos = CHR ''{''"
  then show "loop_body code pos depth True expr_depth = (Proceed, pos + 1, depth, True, expr_depth + 1)"
    by (rule loop_body_open_brace)
next
  assume "code ! pos = CHR ''}''"
  then show "loop_body code pos depth True expr_depth
        = (Proceed, pos + 1, depth, expr_depth - 1 \<noteq> 0, expr_depth - 1)"
    by (rule loop_body_close_brace)
next
  assume "code ! pos = CHR ''$'' \<and> pos + 1 < length code \<and> code ! (pos + 1) = CHR ''{''"
  then show "loop_body code pos depth False expr_depth = (Proceed, pos + 2, depth, True, 1)"
    by (simp add: loop_body_opener)
next
  assume "template_text t"
  then show "scan (pre @ t @ CHR 0x60 # rest) (length pre) 1 False 0
        = (length pre + length t, 0, False, 0)"
    by (rule scan_template_text)
next
  show "find_function_and_template quoted_close_source ''f'' ''v'' = Inr (28, 38)" by code_simp
next
  show "slice quoted_close_source 28 38 = ''a${ '' @ [CHR 0x22, CHR ''}'', CHR 0x22] @ '' }b''"
    by code_simp
qed

theorem brace_depth_counts_every_brace_witness:
  "quoted_open_source ! 32 = CHR 0x22 \<and> quoted_open_source ! 33 = CHR ''{''
   \<and> quoted_open_source ! 34 = CHR 0x22
   \<and> loop_body quoted_open_source 33 1 True 1 = (Proceed, 34, 1, True, 2)
   \<and> quoted_close_source ! 33 = CHR ''}''
   \<and> loop_body quoted_close_source 33 1 True 1 = (Proceed, 34, 1, False, 0)"
proof -
  have c: "quoted_open_source ! 32 = CHR 0x22" "quoted_open_source ! 33 = CHR ''{''"
    "quoted_open_source ! 34 = CHR 0x22" "quoted_close_source ! 33 = CHR ''}''" by code_simp+
  have 1: "loop_body quoted_open_source 33 1 True 1 = (Proceed, 34, 1, True, 2)"
    using brace_depth_counts_every_brace[of quoted_open_source 33 1 1, THEN conjunct1] c by simp
  have 2: "loop_body quoted_close_source 33 1 True 1 = (Proceed, 34, 1, False, 0)"
    using brace_depth_counts_every_brace[of quoted_close_source 33 1 1, THEN conjunct2, THEN conjunct1] c
    by simp
  from c 1 2 show ?thesis by blast
qed

text \<open>
  A quoted \<^verbatim>\<open>{\<close> does raise the depth: in \<open>quoted_open_source\<close> the brace between
  the double quotes takes the depth from 1 to 2, the interpolation is never closed, and
  the literal is not resolved at all.
\<close>

theorem quoted_brace_counterexample:
  "quoted_open_source ! 32 = CHR 0x22 \<and> quoted_open_source ! 33 = CHR ''{''
   \<and> quoted_open_source ! 34 = CHR 0x22
   \<and> loop_body quoted_open_source 33 1 True 1 = (Proceed, 34, 1, True, 2)
   \<and> find_function_and_template quoted_open_source ''f'' ''v'' = Inl UnterminatedLiteral"
  by code_simp

text \<open>
  C6. The locator reports \<open>FunctionNotFound\<close> exactly when the header pattern for
  the function name occurs nowhere in the text, and \<open>AssignmentNotFound\<close> exactly when
  the function is found and the assignment pattern occurs nowhere in its bounded body
  \<open>code[func_start:func_end]\<close>; in both cases no region is returned. The messages the
  source builds for its three failures are pairwise different, whatever the names. The
  locator is a function of its three arguments only: it writes nothing and leaves the
  text as it is.
\<close>

theorem failure_reasons_distinct:
  "(find_function_and_template code function_name html_var = Inl FunctionNotFound) =
     (\<forall>a b. \<not> occurs_at (func_pattern function_name) code a b)
   \<and> (find_function_and_template code function_name html_var = Inl AssignmentNotFound) =
       (\<exists>func_start func_end. func_window code function_name = Some (func_start, func_end)
          \<and> (\<forall>a b. \<not> occurs_at (assignment_pattern html_var) (slice code func_start func_end) a b))
   \<and> (error_message e1 function_name html_var = error_message e2 function_name html_var
        \<longrightarrow> e1 = e2)"
proof (intro conjI impI)
  show "(find_function_and_template code function_name html_var = Inl FunctionNotFound) =
     (\<forall>a b. \<not> occurs_at (func_pattern function_name) code a b)"
    by (simp only: find_function_not_found_iff func_window_None_iff)
next
  show "(find_function_and_template code function_name html_var = Inl AssignmentNotFound) =
       (\<exists>func_start func_end. func_window code function_name = Some (func_start, func_end)
          \<and> (\<forall>a b. \<not> occurs_at (assignment_pattern html_var) (slice code func_start func_end) a b))"
    by (simp only: find_assignment_not_found_iff re_search_None_iff)
next
  assume "error_message e1 function_name html_var = error_message e2 function_name html_var"
  then show "e1 = e2" by (rule error_message_inj)
qed

theorem failure_reasons_distinct_witness:
  "(\<forall>a b. \<not> occurs_at (func_pattern ''g'') suffix_source a b)
   \<and> find_function_and_template suffix_source ''g'' ''htmlBody'' = Inl FunctionNotFound
   \<and> func_window suffix_source ''f'' = Some (14, 44)
   \<and> (\<forall>a b. \<not> occurs_at (assignment_pattern ''textBody'') (slice suffix_source 14 44) a b)
   \<and> find_function_and_template suffix_source ''f'' ''textBody'' = Inl AssignmentNotFound"
proof -
  have "re_search (func_pattern ''g'') suffix_source = None" by code_simp
  then have n1: "\<forall>a b. \<not> occurs_at (func_pattern ''g'') suffix_source a b"
    by (rule iffD1[OF re_search_None_iff])
  have r1: "find_function_and_template suffix_source ''g'' ''htmlBody'' = Inl FunctionNotFound"
    using failure_reasons_distinct[of suffix_source "''g''" "''htmlBody''", THEN conjunct1] n1
    by blast
  have fw: "func_window suffix_source ''f'' = Some (14, 44)" by code_simp
  have "re_search (assignment_pattern ''textBody'') (slice suffix_source 14 44) = None" by code_simp
  then have n2: "\<forall>a b. \<not> occurs_at (assignment_pattern ''textBody'') (slice suffix_source 14 44) a b"
    by (rule iffD1[OF re_search_None_iff])
  have r2: "find_function_and_template suffix_source ''f'' ''textBody'' = Inl AssignmentNotFound"
    using failure_reasons_distinct[of suffix_source "''f''" "''textBody''",
        THEN conjunct2, THEN conjunct1] fw n2
    by blast
  from n1 r1 fw n2 r2 show ?thesis by (intro conjI)
qed

text \<open>
  C7, as the code has it. The search for the assignment is confined to the window that
  runs from the end of the first header match for the function name to the first
  following line that begins \<^verbatim>\<open>function <word>\<close> or \<^verbatim>\<open>/**\<close>, or to the end of
  the text: a returned region starts after that header and not after the window's end,
  and every such line found after the header lies at or after the window's end. So a
  region that lies before the header of \<open>B\<close>, or after a line-start declaration that
  follows it, is never returned for \<open>B\<close>.
\<close>

theorem window_confines_region:
  assumes "find_function_and_template code function_name html_var = Inr (start, end')"
  shows "\<exists>func_start func_end.
           func_window code function_name = Some (func_start, func_end)
           \<and> func_start < start \<and> start \<le> func_end \<and> func_end \<le> length code
           \<and> (\<exists>hs. occurs_at (func_pattern function_name) code hs func_start
                  \<and> (\<forall>a b. a < hs \<longrightarrow> \<not> occurs_at (func_pattern function_name) code a b))
           \<and> (\<forall>a b. func_start \<le> a \<and> occurs_at next_func_pattern code a b \<longrightarrow> func_end \<le> a)
           \<and> (func_end = length code \<or> (\<exists>b. occurs_at next_func_pattern code func_end b))"
proof -
  from find_Inr(1)[OF assms] have ts: "template_start code function_name html_var = Inr start" .
  from template_start_Inr[OF ts] obtain fs fe a where
    fw: "func_window code function_name = Some (fs, fe)" and b: "fs \<le> a" "a < start" "start \<le> fe"
    by blast
  note w = func_window_Some[OF fw]
  have "\<forall>a b. fs \<le> a \<and> occurs_at next_func_pattern code a b \<longrightarrow> fe \<le> a"
    using w(4) by (meson not_le_imp_less)
  with fw b w(1,3,5) show ?thesis by (intro exI[of _ fs] exI[of _ fe]) auto
qed

theorem window_confines_region_witness:
  "find_function_and_template sequential_source ''A'' ''v'' = Inr (28, 29)
   \<and> func_window sequential_source ''A'' = Some (14, 33)
   \<and> (\<exists>b. occurs_at next_func_pattern sequential_source 33 b)"
proof -
  have h: "find_function_and_template sequential_source ''A'' ''v'' = Inr (28, 29)" by code_simp
  have fw: "func_window sequential_source ''A'' = Some (14, 33)" by code_simp
  have ne: "33 \<noteq> length sequential_source" by code_simp
  from window_confines_region[OF h] obtain fs fe where
    w: "func_window sequential_source ''A'' = Some (fs, fe)"
    and e: "fe = length sequential_source \<or> (\<exists>b. occurs_at next_func_pattern sequential_source fe b)"
    by blast
  from w fw have "fe = 33" by simp
  with e ne have "\<exists>b. occurs_at next_func_pattern sequential_source 33 b" by simp
  with h fw show ?thesis by blast
qed

text \<open>
  A function declared inside \<open>B\<close> and indented does not end the window: in
  \<open>nested_source\<close>, locating \<open>v\<close> in \<open>B\<close> returns the region of the literal of
  \<open>A\<close>, the very region that locating in \<open>A\<close> returns.
\<close>

theorem nested_function_counterexample:
  "find_function_and_template nested_source ''B'' ''v'' = Inr (47, 48)
   \<and> find_function_and_template nested_source ''A'' ''v'' = Inr (47, 48)
   \<and> slice nested_source 47 48 = ''a''"
  by code_simp



text \<open>
  C9, as the code has it. The scan terminates on every input. An iteration that
  returns to the loop test advances the position by 2 on an escape and on a
  \<^verbatim>\<open>${\<close> opener and by 1 otherwise, never past the end of the text; the iteration
  that takes the \<^verbatim>\<open>break\<close> leaves the position where it is and ends the loop. The
  loop body runs at most \<open>length code - pos\<close> times, and the final position lies
  between the initial one and the end of the text. (That \<open>scan\<close> and \<open>iterations\<close>
  are total functions is what their termination proofs, by the measure
  \<open>length code - pos\<close>, establish.)
\<close>

theorem scan_progress:
  "(pos < length code \<and> loop_body code pos depth in_expression expr_depth = (Proceed, pos', rest) \<longrightarrow>
      pos' \<le> length code
      \<and> pos' = (if (code ! pos = CHR 0x5C \<and> pos + 1 < length code)
                   \<or> (code ! pos = CHR ''$'' \<and> pos + 1 < length code \<and> code ! (pos + 1) = CHR ''{'')
                then pos + 2 else pos + 1))
   \<and> (loop_body code pos depth in_expression expr_depth = (Break, final) \<longrightarrow>
        final = (pos, 0, in_expression, expr_depth))
   \<and> iterations code pos depth in_expression expr_depth \<le> length code - pos
   \<and> (pos \<le> length code \<longrightarrow>
        pos \<le> fst (scan code pos depth in_expression expr_depth)
        \<and> fst (scan code pos depth in_expression expr_depth) \<le> length code)"
proof (intro conjI impI)
  assume a: "pos < length code \<and> loop_body code pos depth in_expression expr_depth = (Proceed, pos', rest)"
  then have pl: "pos < length code"
    and lb: "loop_body code pos depth in_expression expr_depth = (Proceed, pos', rest)" by simp_all
  from loop_body_Proceed[OF pl lb]
  show "pos' \<le> length code"
    "pos' = (if (code ! pos = CHR 0x5C \<and> pos + 1 < length code)
                   \<or> (code ! pos = CHR ''$'' \<and> pos + 1 < length code \<and> code ! (pos + 1) = CHR ''{'')
                then pos + 2 else pos + 1)" by blast+
next
  assume "loop_body code pos depth in_expression expr_depth = (Break, final)"
  from loop_body_Break[OF this] show "final = (pos, 0, in_expression, expr_depth)" by simp
next
  show "iterations code pos depth in_expression expr_depth \<le> length code - pos"
    by (rule iterations_bound)
next
  assume "pos \<le> length code"
  from scan_pos_bounds[OF this]
  show "pos \<le> fst (scan code pos depth in_expression expr_depth)"
    "fst (scan code pos depth in_expression expr_depth) \<le> length code" by blast+
qed

theorem scan_progress_witness:
  "loop_body ''a${b}`'' 1 1 False 0 = (Proceed, 3, 1, True, 1)
   \<and> iterations ''a${b}`'' 0 1 False 0 \<le> 6
   \<and> fst (scan ''a${b}`'' 0 1 False 0) \<le> 6"
proof -
  have 0: "loop_body ''a${b}`'' 1 1 False 0 = (Proceed, 3, 1, True, 1)" by code_simp
  have 1: "iterations ''a${b}`'' 0 1 False 0 \<le> 6"
    using scan_progress[of 0 "''a${b}`''" 1 False 0, THEN conjunct2, THEN conjunct2, THEN conjunct1]
    by simp
  have 2: "fst (scan ''a${b}`'' 0 1 False 0) \<le> 6"
    using scan_progress[of 0 "''a${b}`''" 1 False 0, THEN conjunct2, THEN conjunct2, THEN conjunct2]
    by simp
  from 0 1 2 show ?thesis by blast
qed

text \<open>
  The position does not advance by 1 or by 2-on-an-escape in every iteration: on
  \<^verbatim>\<open>${\<close> it advances by 2 with no escape read, and the iteration at the closing
  backtick does not advance it.
\<close>

theorem scan_progress_counterexample:
  "''${'' ! 0 \<noteq> CHR 0x5C
   \<and> loop_body ''${'' 0 1 False 0 = (Proceed, 2, 1, True, 1)
   \<and> loop_body [CHR 0x60] 0 1 False 0 = (Break, 0, 0, False, 0)"
  by code_simp

text \<open>
  C10. The assignment pattern does not anchor the variable name at a word boundary:
  in \<open>suffix_source\<close>, whose function holds only an assignment to \<open>xhtmlBody\<close>,
  locating \<open>htmlBody\<close> succeeds and returns the region of that literal, the same
  region that locating \<open>xhtmlBody\<close> returns.
\<close>

theorem suffix_variable_matches:
  "find_function_and_template suffix_source ''f'' ''htmlBody'' = Inr (36, 40)
   \<and> slice suffix_source 36 40 = ''TEXT''
   \<and> find_function_and_template suffix_source ''f'' ''xhtmlBody'' = Inr (36, 40)"
  by code_simp

end
